theory Spec2Isabelle
  imports Main "HOL-Library.While_Combinator"
begin

section \<open>Strings\<close>

text \<open>
  A JavaScript string is a sequence of UTF-16 code units. A code unit is modelled as an
  \<open>int\<close> (0 .. 0xFFFF); none of the regular expressions of the reader carries the
  \<open>u\<close> flag, so every one of them works on code units.
\<close>

type_synonym ustring = "int list"

definition u :: "char \<Rightarrow> int" where
  "u c = of_char c"

definition ustr :: "string \<Rightarrow> ustring" where
  "ustr cs = map u cs"

text \<open>\<open>s[i]\<close>: the code unit at index \<open>i\<close>, \<open>undefined\<close> (here \<open>None\<close>) out of range.\<close>

definition at :: "ustring \<Rightarrow> nat \<Rightarrow> int option" where
  "at s i = (if i < length s then Some (s ! i) else None)"

text \<open>\<open>s.at(-k)\<close> for \<open>k > 0\<close>.\<close>

definition at_end :: "ustring \<Rightarrow> nat \<Rightarrow> int option" where
  "at_end s k = (if 0 < k \<and> k \<le> length s then Some (s ! (length s - k)) else None)"

text \<open>\<open>s.slice(a, b)\<close> for non-negative \<open>a\<close>, \<open>b\<close>, and \<open>s.slice(a, -k)\<close>.\<close>

definition slice :: "ustring \<Rightarrow> nat \<Rightarrow> nat \<Rightarrow> ustring" where
  "slice s a b = take (b - a) (drop a s)"

definition slice_end :: "ustring \<Rightarrow> nat \<Rightarrow> nat \<Rightarrow> ustring" where
  "slice_end s a k = take ((length s - k) - a) (drop a s)"

text \<open>\<open>s.indexOf(c, from)\<close> for a single code unit \<open>c\<close>; \<open>None\<close> is JavaScript's \<open>-1\<close>.\<close>

fun index_from :: "int \<Rightarrow> ustring \<Rightarrow> nat \<Rightarrow> nat option" where
  "index_from c [] i = None"
| "index_from c (x # xs) i = (if x = c then Some i else index_from c xs (Suc i))"

definition indexOf :: "ustring \<Rightarrow> int \<Rightarrow> nat \<Rightarrow> nat option" where
  "indexOf s c from = index_from c (drop from s) from"

section \<open>Regular expressions\<close>

text \<open>
  The subset of the regular expression syntax the reader uses. \<open>Dot\<close> is \<open>.\<close> under the
  \<open>s\<close> flag (every code unit), \<open>Star\<close> the greedy \<open>*\<close>, \<open>Lazy\<close> the non-greedy \<open>*?\<close>.
\<close>

datatype rx = Eps | Chr int | NCls "int list" | Cls "int list" | Dot
  | Seq rx rx | Alt rx rx | Star rx | Lazy rx

definition Plus :: "rx \<Rightarrow> rx" where
  "Plus r = Seq r (Star r)"

definition Opt :: "rx \<Rightarrow> rx" where
  "Opt r = Alt r Eps"

fun seqs :: "rx list \<Rightarrow> rx" where
  "seqs [] = Eps"
| "seqs [r] = r"
| "seqs (r # rs) = Seq r (seqs rs)"

fun alts :: "rx list \<Rightarrow> rx" where
  "alts [] = NCls []"
| "alts [r] = r"
| "alts (r # rs) = Alt r (alts rs)"

definition lit_str :: "string \<Rightarrow> rx" where
  "lit_str cs = seqs (map (\<lambda>c. Chr (u c)) cs)"

text \<open>
  The backtracking matcher of ECMAScript, in continuation-passing style as the language
  specification has it: \<open>m r s k\<close> matches \<open>r\<close> at the front of the rest \<open>s\<close> of the input
  and hands what is left to the continuation \<open>k\<close>; the first success in priority order
  wins. An iteration of a star that consumes nothing is rejected, as in the specification's
  RepeatMatcher.
\<close>

function m :: "rx \<Rightarrow> ustring \<Rightarrow> (ustring \<Rightarrow> ustring option) \<Rightarrow> ustring option" where
  "m Eps s k = k s"
| "m (Chr c) s k = (case s of [] \<Rightarrow> None | x # xs \<Rightarrow> if x = c then k xs else None)"
| "m (NCls cs) s k = (case s of [] \<Rightarrow> None | x # xs \<Rightarrow> if x \<notin> set cs then k xs else None)"
| "m (Cls cs) s k = (case s of [] \<Rightarrow> None | x # xs \<Rightarrow> if x \<in> set cs then k xs else None)"
| "m Dot s k = (case s of [] \<Rightarrow> None | x # xs \<Rightarrow> k xs)"
| "m (Seq a b) s k = m a s (\<lambda>s'. m b s' k)"
| "m (Alt a b) s k = (case m a s k of Some z \<Rightarrow> Some z | None \<Rightarrow> m b s k)"
| "m (Star a) s k =
     (case m a s (\<lambda>s'. if length s' < length s then m (Star a) s' k else None) of
        Some z \<Rightarrow> Some z
      | None \<Rightarrow> k s)"
| "m (Lazy a) s k =
     (case k s of
        Some z \<Rightarrow> Some z
      | None \<Rightarrow> m a s (\<lambda>s'. if length s' < length s then m (Lazy a) s' k else None))"
  by pat_completeness auto
termination
  by (relation "inv_image (less_than <*lex*> less_than) (\<lambda>(r, s, k). (size r, length s))") auto

text \<open>
  A sticky regular expression run at \<open>lastIndex = i\<close>: \<open>r.lastIndex = i; r.test(s)\<close>.
  \<open>Some e\<close> is a match, with \<open>e\<close> the new \<open>lastIndex\<close>; \<open>None\<close> is no match.
\<close>

definition exec :: "rx \<Rightarrow> ustring \<Rightarrow> nat \<Rightarrow> nat option" where
  "exec r s i = (case m r (drop i s) Some of
                   None \<Rightarrow> None
                 | Some rest \<Rightarrow> Some (length s - length rest))"

subsection \<open>The six microsyntaxes\<close>

text \<open>Code units written as numbers: 9 tab, 10 line feed, 13 carriage return, 34 \<open>"\<close>, 39 \<open>'\<close>.\<close>

definition dq_str :: rx where
  "dq_str = seqs [Chr 34, Star (NCls [34]), Chr 34]"

definition sq_str :: rx where
  "sq_str = seqs [Chr 39, Star (NCls [39]), Chr 39]"

definition PROLOG :: rx where
  "PROLOG = Star (alts
     [seqs [lit_str ''<!'',
            Star (alts [dq_str, sq_str,
                        seqs [Chr (u CHR ''<''),
                              Star (alts [dq_str, sq_str, Plus (NCls (ustr ''>''))]),
                              Chr (u CHR ''>'')],
                        Plus (NCls (ustr ''<>'' @ [34, 39]))]),
            Chr (u CHR ''>'')],
      seqs [lit_str ''<!-'', Lazy Dot, lit_str ''-->''],
      seqs [lit_str ''<?'', Lazy Dot, lit_str ''?>''],
      Plus (NCls (ustr ''<''))])"

definition PRIMARY :: rx where
  "PRIMARY = alts
     [seqs [Chr (u CHR ''&''), Plus (NCls (ustr '';'')), Chr (u CHR '';'')],
      seqs [lit_str ''<!['', Lazy Dot, lit_str '']]>''],
      seqs [lit_str ''<!-'', Lazy Dot, lit_str ''-->''],
      seqs [lit_str ''<?'', Lazy Dot, lit_str ''?>''],
      seqs [Chr (u CHR ''<''), Opt (Chr (u CHR ''/'')), Plus (NCls (ustr ''/> '' @ [9, 13, 10]))],
      Plus (NCls (ustr ''<&''))]"

definition ATTLIST :: rx where
  "ATTLIST = alts
     [seqs [Opt (Chr (u CHR ''/'')), Chr (u CHR ''>'')],
      Plus (Cls (ustr '' '' @ [9, 13, 10])),
      seqs [Plus (NCls (ustr ''='')), Chr (u CHR ''=''), Cls [34, 39]]]"

definition DQ_ATTR :: rx where
  "DQ_ATTR = alts
     [seqs [Chr (u CHR ''&''), Plus (NCls (ustr '';'')), Chr (u CHR '';'')],
      Chr 34,
      Plus (NCls [34, u CHR ''&''])]"

definition SQ_ATTR :: rx where
  "SQ_ATTR = alts
     [seqs [Chr (u CHR ''&''), Plus (NCls (ustr '';'')), Chr (u CHR '';'')],
      Chr 39,
      Plus (NCls [39, u CHR ''&''])]"

definition RX_ATTR :: rx where
  "RX_ATTR = alts
     [seqs [Chr (u CHR ''&''), Plus (NCls (ustr '';'')), Chr (u CHR '';'')],
      Plus (NCls (ustr ''&''))]"

section \<open>Library functions of the language\<close>

definition StrWhiteSpaceChar :: "int \<Rightarrow> bool" where
  "StrWhiteSpaceChar c \<longleftrightarrow>
     c \<in> set [9, 10, 11, 12, 13, 32, 160, 0x1680, 0x2028, 0x2029, 0x202F, 0x205F, 0x3000, 0xFEFF]
     \<or> (0x2000 \<le> c \<and> c \<le> 0x200A)"

definition digit_val :: "int \<Rightarrow> int option" where
  "digit_val c =
     (if 48 \<le> c \<and> c \<le> 57 then Some (c - 48)
      else if 97 \<le> c \<and> c \<le> 122 then Some (c - 87)
      else if 65 \<le> c \<and> c \<le> 90 then Some (c - 55)
      else None)"

definition is_digit :: "int \<Rightarrow> int \<Rightarrow> bool" where
  "is_digit R c = (case digit_val c of None \<Rightarrow> False | Some d \<Rightarrow> d < R)"

text \<open>
  \<open>parseInt(s, radix)\<close>, with \<open>radix = 0\<close> for a call without radix. \<open>None\<close> is \<open>NaN\<close>.
  The result is the exact integer: a double differs from it only beyond \<open>2^53\<close>, where
  rounding is monotone and cannot move a value across the bounds \<open>0\<close> and \<open>0x110000\<close>
  the reader compares it with; \<open>-0\<close> is \<open>0\<close>.
\<close>

definition parseInt :: "ustring \<Rightarrow> int \<Rightarrow> int option" where
  "parseInt s radix =
     (let S1 = dropWhile StrWhiteSpaceChar s;
          sign = (if at S1 0 = Some (u CHR ''-'') then -1 else 1);
          S2 = (if at S1 0 = Some (u CHR ''+'') \<or> at S1 0 = Some (u CHR ''-'') then tl S1 else S1)
      in if radix \<noteq> 0 \<and> (radix < 2 \<or> 36 < radix) then None
         else
           let stripPrefix = (radix = 0 \<or> radix = 16);
               R0 = (if radix = 0 then 10 else radix);
               prefixed = (stripPrefix \<and> at S2 0 = Some (u CHR ''0'')
                           \<and> (at S2 1 = Some (u CHR ''x'') \<or> at S2 1 = Some (u CHR ''X'')));
               S3 = (if prefixed then drop 2 S2 else S2);
               R = (if prefixed then 16 else R0);
               Z = takeWhile (is_digit R) S3
           in if Z = [] then None
              else Some (sign * foldl (\<lambda>a c. a * R + the (digit_val c)) 0 Z))"

text \<open>\<open>String.fromCodePoint(c)\<close> for \<open>0 \<le> c < 0x110000\<close>: one code unit, or a surrogate pair.\<close>

definition fromCodePoint :: "int \<Rightarrow> ustring" where
  "fromCodePoint c =
     (if c < 0x10000 then [c]
      else [0xD800 + (c - 0x10000) div 0x400, 0xDC00 + (c - 0x10000) mod 0x400])"

text \<open>
  \<open>Map.prototype.set\<close> on a map kept in insertion order: a key that is present keeps its
  place and gets the new value, a new key goes to the end.
\<close>

fun map_set :: "'k \<Rightarrow> 'v \<Rightarrow> ('k \<times> 'v) list \<Rightarrow> ('k \<times> 'v) list" where
  "map_set k v [] = [(k, v)]"
| "map_set k v (p # ps) = (if fst p = k then (k, v) # ps else p # map_set k v ps)"

section \<open>The reader\<close>

definition PREDEFINED :: "(ustring \<times> ustring) list" where
  "PREDEFINED =
     [(ustr ''lt'', ustr ''<''),
      (ustr ''gt'', ustr ''>''),
      (ustr ''amp'', ustr ''&''),
      (ustr ''apos'', [39]),
      (ustr ''quot'', [34])]"

text \<open>
  The hooks of the backend, as the events of a trace. A hook is taken to return, and to leave
  the entity table as it is.
\<close>

datatype hook = Head ustring | Otag ustring "(ustring \<times> ustring) list" | Ctag ustring | Text ustring

text \<open>\<open>type Frame = [src, pos, lit, end]\<close>\<close>

type_synonym frame = "ustring \<times> nat \<times> rx option \<times> ustring option"

text \<open>
  The three nested \<open>while (active)\<close> loops of \<open>fast_xml\<close>: the top-level loop, the
  attributes list loop and the literal loop. Nothing follows an inner loop in the body of the
  loop around it, so the loops are one machine whose \<open>mode\<close> says which loop is running:
  a \<open>break\<close> hands control to the loop around, and \<open>active = false\<close> ends all three.
\<close>

datatype mode = Primary | Attlist | Literal

text \<open>
  The variables of \<open>fast_xml\<close>. \<open>lit\<close> and \<open>end\<close> are declared without a value, so they
  start \<open>undefined\<close> (\<open>None\<close>). \<open>tag\<close>, \<open>attrs\<close> and \<open>attr\<close> are the locals of the
  attributes list loop. \<open>thrown\<close> records a TypeError leaving \<open>fast_xml\<close>; \<open>trace\<close> the
  hooks called so far.
\<close>

record state =
  src :: ustring
  pos :: nat
  lit :: "rx option"
  end_delim :: "ustring option"
  stack :: "frame list"
  names :: "ustring list"
  text_buf :: ustring
  active :: bool
  mode :: mode
  tag :: ustring
  attrs :: "(ustring \<times> ustring) list"
  attr :: ustring
  thrown :: bool
  trace :: "hook list"

text \<open>\<open>if (text) impl.text?.(text); text = '';\<close>\<close>

definition flush :: "state \<Rightarrow> state" where
  "flush s = s\<lparr>trace := trace s @ (if text_buf s \<noteq> [] then [Text (text_buf s)] else []),
              text_buf := []\<rparr>"

text \<open>
  \<open>back\<close> (here \<open>back_frame\<close>): \<open>pop\<close> on an empty array returns \<open>undefined\<close>, and reading \<open>frame[0]\<close> of it
  throws.
\<close>

definition back_frame :: "state \<Rightarrow> state" where
  "back_frame s =
     (let s1 = s\<lparr>names := butlast (names s)\<rparr>
      in case stack s1 of
           [] \<Rightarrow> s1\<lparr>thrown := True\<rparr>
         | _ # _ \<Rightarrow>
             (case last (stack s1) of
                (fsrc, fpos, flit, fend) \<Rightarrow>
                  s1\<lparr>stack := butlast (stack s1), src := fsrc, pos := fpos, lit := flit,
                     end_delim := fend\<rparr>))"

text \<open>
  \<open>let code = ref[1] === 'x' ? parseInt(ref.slice(2), 16) : parseInt(ref.slice(1))\<close>
\<close>

definition ref_code :: "ustring \<Rightarrow> int option" where
  "ref_code ref = (if at ref 1 = Some (u CHR ''x'') then parseInt (drop 2 ref) 16
                   else parseInt (drop 1 ref) 0)"

definition expand :: "(ustring \<times> ustring) list \<Rightarrow> ustring \<Rightarrow> state \<Rightarrow> state" where
  "expand defs ref s =
     (if at ref 0 = Some (u CHR ''#'') then
        (let code = ref_code ref
         in case code of
              None \<Rightarrow> s\<lparr>active := False\<rparr>
            | Some c \<Rightarrow>
                if 0 \<le> c \<and> c < 0x110000 then s\<lparr>text_buf := text_buf s @ fromCodePoint c\<rparr>
                else s\<lparr>active := False\<rparr>)
      else case map_of PREDEFINED ref of
        Some v \<Rightarrow> s\<lparr>text_buf := text_buf s @ v\<rparr>
      | None \<Rightarrow>
          (case map_of defs ref of
             Some v \<Rightarrow>
               if ref \<notin> set (names s) then
                 s\<lparr>names := names s @ [ref],
                   stack := stack s @ [(src s, pos s, lit s, end_delim s)],
                   src := v, pos := 0, lit := Some RX_ATTR, end_delim := Some []\<rparr>
               else s
           | None \<Rightarrow> s))"

text \<open>The body of the top-level loop for a token \<open>tok\<close>, with \<open>pos\<close> already past it.\<close>

definition primary_token :: "(ustring \<times> ustring) list \<Rightarrow> ustring \<Rightarrow> state \<Rightarrow> state" where
  "primary_token defs tok s =
     (if at tok 0 = Some (u CHR ''<'') then
        (if at tok 1 = Some (u CHR ''/'') then
           (let s1 = flush s
            in case indexOf (src s1) (u CHR ''>'') (pos s1) of
                 None \<Rightarrow> s1\<lparr>active := False\<rparr>
               | Some e \<Rightarrow> s1\<lparr>trace := trace s1 @ [Ctag (drop 2 tok)], pos := e + 1\<rparr>)
         else if at tok 1 = Some (u CHR ''!'') \<and> at tok 2 = Some (u CHR ''['') then
           s\<lparr>text_buf := text_buf s @ slice_end tok 9 3\<rparr>
         else if at tok 1 \<noteq> Some (u CHR ''!'') \<and> at tok 1 \<noteq> Some (u CHR ''?'') then
           (flush s)\<lparr>tag := drop 1 tok, attrs := [], mode := Attlist\<rparr>
         else s)
      else if at tok 0 = Some (u CHR ''&'') then expand defs (slice_end tok 1 1) s
      else s\<lparr>text_buf := text_buf s @ tok\<rparr>)"

definition primary_step :: "(ustring \<times> ustring) list \<Rightarrow> state \<Rightarrow> state" where
  "primary_step defs s =
     (case exec PRIMARY (src s) (pos s) of
        Some e \<Rightarrow> primary_token defs (slice (src s) (pos s) e) (s\<lparr>pos := e\<rparr>)
      | None \<Rightarrow> if stack s \<noteq> [] then back_frame s else s\<lparr>active := False\<rparr>)"

text \<open>The body of the attributes list loop.\<close>

definition attlist_token :: "ustring \<Rightarrow> state \<Rightarrow> state" where
  "attlist_token tok s =
     (if tok = ustr ''/>'' \<or> tok = ustr ''>'' then
        s\<lparr>trace := trace s @ [Otag (tag s) (attrs s)]
                     @ (if tok \<noteq> ustr ''>'' then [Ctag (tag s)] else []),
          mode := Primary\<rparr>
      else if at_end tok 2 = Some (u CHR ''='') then
        s\<lparr>attr := slice_end tok 0 2,
          end_delim := Some [last tok],
          lit := Some (if [last tok] = [34] then DQ_ATTR else SQ_ATTR),
          mode := Literal\<rparr>
      else s)"

definition attlist_step :: "state \<Rightarrow> state" where
  "attlist_step s =
     (case exec ATTLIST (src s) (pos s) of
        Some e \<Rightarrow> attlist_token (slice (src s) (pos s) e) (s\<lparr>pos := e\<rparr>)
      | None \<Rightarrow> s\<lparr>active := False\<rparr>)"

text \<open>The body of the literal loop. \<open>lit.lastIndex = pos\<close> throws when \<open>lit\<close> is undefined.\<close>

definition literal_token :: "(ustring \<times> ustring) list \<Rightarrow> ustring \<Rightarrow> state \<Rightarrow> state" where
  "literal_token defs tok s =
     (if Some tok = end_delim s then
        s\<lparr>attrs := map_set (attr s) (text_buf s) (attrs s), text_buf := [], mode := Attlist\<rparr>
      else if at tok 0 = Some (u CHR ''&'') then expand defs (slice_end tok 1 1) s
      else s\<lparr>text_buf := text_buf s @ tok\<rparr>)"

definition literal_step :: "(ustring \<times> ustring) list \<Rightarrow> state \<Rightarrow> state" where
  "literal_step defs s =
     (case lit s of
        None \<Rightarrow> s\<lparr>thrown := True\<rparr>
      | Some r \<Rightarrow>
          (case exec r (src s) (pos s) of
             Some e \<Rightarrow> literal_token defs (slice (src s) (pos s) e) (s\<lparr>pos := e\<rparr>)
           | None \<Rightarrow> if stack s \<noteq> [] then back_frame s else s\<lparr>active := False\<rparr>))"

definition step :: "(ustring \<times> ustring) list \<Rightarrow> state \<Rightarrow> state" where
  "step defs s =
     (case mode s of
        Primary \<Rightarrow> primary_step defs s
      | Attlist \<Rightarrow> attlist_step s
      | Literal \<Rightarrow> literal_step defs s)"

text \<open>The state when the top-level loop is reached: the prolog is skipped, \<open>head\<close> is called.\<close>

definition init :: "ustring \<Rightarrow> state" where
  "init doc =
     (let p = (case exec PROLOG doc 0 of Some e \<Rightarrow> e | None \<Rightarrow> 0)
      in \<lparr>src = doc, pos = p, lit = None, end_delim = None, stack = [], names = [],
          text_buf = [], active = True, mode = Primary, tag = [], attrs = [], attr = [],
          thrown = False, trace = [Head (slice doc 0 p)]\<rparr>)"

definition running :: "state \<Rightarrow> bool" where
  "running s \<longleftrightarrow> active s \<and> \<not> thrown s"

text \<open>
  \<open>fast_xml\<close> with the entity table \<open>defs\<close> (\<open>impl.defs\<close>, \<open>[]\<close> when absent) on the
  document \<open>doc\<close>: the final state, or \<open>None\<close> if the loops never end.
\<close>

definition fast_xml :: "(ustring \<times> ustring) list \<Rightarrow> ustring \<Rightarrow> state option" where
  "fast_xml defs doc = while_option running (step defs) (init doc)"

text \<open>The hooks \<open>fast_xml\<close> calls, in order.\<close>

definition hooks :: "(ustring \<times> ustring) list \<Rightarrow> ustring \<Rightarrow> hook list option" where
  "hooks defs doc = map_option trace (fast_xml defs doc)"

section \<open>Facts about the matcher\<close>

text \<open>The least number of code units a match of a regular expression consumes.\<close>

fun minlen :: "rx \<Rightarrow> nat" where
  "minlen Eps = 0"
| "minlen (Chr c) = 1"
| "minlen (NCls cs) = 1"
| "minlen (Cls cs) = 1"
| "minlen Dot = 1"
| "minlen (Seq a b) = minlen a + minlen b"
| "minlen (Alt a b) = min (minlen a) (minlen b)"
| "minlen (Star a) = 0"
| "minlen (Lazy a) = 0"

lemma m_sound:
  "m r s k = Some z \<Longrightarrow> \<exists>p s'. k s' = Some z \<and> s = p @ s' \<and> minlen r \<le> length p"
proof (induction r s k arbitrary: z rule: m.induct)
  case (1 s k)
  then show ?case by auto
next
  case (2 c s k)
  then show ?case by (cases s) (auto split: if_splits intro: exI[of _ "[x]" for x])
next
  case (3 cs s k)
  then show ?case by (cases s) (auto split: if_splits intro: exI[of _ "[x]" for x])
next
  case (4 cs s k)
  then show ?case by (cases s) (auto split: if_splits intro: exI[of _ "[x]" for x])
next
  case (5 s k)
  then show ?case by (cases s) (auto split: if_splits intro: exI[of _ "[x]" for x])
next
  case (6 a b s k)
  from "6.prems" have "m a s (\<lambda>s'. m b s' k) = Some z" by simp
  from "6.IH"(2)[OF this] obtain p1 s1 where
    a: "m b s1 k = Some z" "s = p1 @ s1" "minlen a \<le> length p1" by blast
  from "6.IH"(1)[OF a(1)] obtain p2 s2 where
    b: "k s2 = Some z" "s1 = p2 @ s2" "minlen b \<le> length p2" by blast
  have "s = (p1 @ p2) @ s2" using a b by simp
  moreover have "minlen (Seq a b) \<le> length (p1 @ p2)" using a b by simp
  ultimately show ?case using b(1) by blast
next
  case (7 a b s k)
  show ?case
  proof (cases "m a s k")
    case None
    with "7.prems" have "m b s k = Some z" by simp
    from "7.IH"(2)[OF None this] obtain p s' where
      "k s' = Some z" "s = p @ s'" "minlen b \<le> length p" by blast
    then have "k s' = Some z \<and> s = p @ s' \<and> minlen (Alt a b) \<le> length p" by simp
    then show ?thesis by blast
  next
    case (Some y)
    with "7.prems" have "m a s k = Some z" by simp
    from "7.IH"(1)[OF this] obtain p s' where
      "k s' = Some z" "s = p @ s'" "minlen a \<le> length p" by blast
    then have "k s' = Some z \<and> s = p @ s' \<and> minlen (Alt a b) \<le> length p" by simp
    then show ?thesis by blast
  qed
next
  case (8 a s k)
  let ?k = "\<lambda>s'. if length s' < length s then m (Star a) s' k else None"
  show ?case
  proof (cases "m a s ?k")
    case None
    with "8.prems" have "k s = Some z" by simp
    then show ?thesis by auto
  next
    case (Some y)
    with "8.prems" have "m a s ?k = Some z" by simp
    from "8.IH"(2)[OF this] obtain p1 s1 where
      a: "?k s1 = Some z" "s = p1 @ s1" by blast
    then have l: "length s1 < length s" and st: "m (Star a) s1 k = Some z"
      by (auto split: if_splits)
    from "8.IH"(1)[OF l st] obtain p2 s2 where
      b: "k s2 = Some z" "s1 = p2 @ s2" by blast
    have "k s2 = Some z \<and> s = (p1 @ p2) @ s2 \<and> minlen r0 \<le> length (p1 @ p2)"
      if "minlen r0 = 0" for r0 using a b that by simp
    then show ?thesis by (metis minlen.simps(8,9))
  qed
next
  case (9 a s k)
  let ?k = "\<lambda>s'. if length s' < length s then m (Lazy a) s' k else None"
  show ?case
  proof (cases "k s")
    case (Some y)
    with "9.prems" have "k s = Some z" by simp
    then show ?thesis by auto
  next
    case None
    with "9.prems" have "m a s ?k = Some z" by simp
    from "9.IH"(2)[OF None this] obtain p1 s1 where
      a: "?k s1 = Some z" "s = p1 @ s1" by blast
    then have l: "length s1 < length s" and st: "m (Lazy a) s1 k = Some z"
      by (auto split: if_splits)
    from "9.IH"(1)[OF None l st] obtain p2 s2 where
      b: "k s2 = Some z" "s1 = p2 @ s2" by blast
    have "k s2 = Some z \<and> s = (p1 @ p2) @ s2 \<and> minlen r0 \<le> length (p1 @ p2)"
      if "minlen r0 = 0" for r0 using a b that by simp
    then show ?thesis by (metis minlen.simps(8,9))
  qed
qed

lemma exec_bounds:
  assumes "exec r s i = Some e"
  shows "e \<le> length s" and "0 < minlen r \<Longrightarrow> i < e"
proof -
  from assms obtain rest where r: "m r (drop i s) Some = Some rest" and e: "e = length s - length rest"
    by (auto simp: exec_def split: option.splits)
  from m_sound[OF r] obtain p where p: "drop i s = p @ rest" "minlen r \<le> length p" by auto
  show "e \<le> length s" using e by simp
  assume "0 < minlen r"
  with p have "length rest < length (drop i s)" by (cases p) auto
  then show "i < e" using e by simp
qed

lemma minlen_lexers:
  "minlen PRIMARY = 1" "minlen ATTLIST = 1" "minlen DQ_ATTR = 1" "minlen SQ_ATTR = 1" "minlen RX_ATTR = 1"
  by (simp_all add: PRIMARY_def ATTLIST_def DQ_ATTR_def SQ_ATTR_def RX_ATTR_def Plus_def Opt_def lit_str_def)

section \<open>What the microsyntaxes match\<close>

lemma star_ncls_then:
  assumes "list_all (\<lambda>x. x \<notin> set cs) xs" "rest = [] \<or> hd rest \<in> set cs" "k rest \<noteq> None"
  shows "m (Star (NCls cs)) (xs @ rest) k = k rest"
  using assms
proof (induction xs)
  case Nil
  then show ?case by (cases rest) (simp_all)
next
  case (Cons x xs)
  then show ?case by auto
qed

lemma star_cls_then:
  assumes "list_all (\<lambda>x. x \<in> set cs) xs" "rest = [] \<or> hd rest \<notin> set cs" "k rest \<noteq> None"
  shows "m (Star (Cls cs)) (xs @ rest) k = k rest"
  using assms
proof (induction xs)
  case Nil
  then show ?case by (cases rest) (simp_all)
next
  case (Cons x xs)
  then show ?case by auto
qed

text \<open>\<open>s.startsWith(pat)\<close>\<close>

definition starts_with :: "ustring \<Rightarrow> ustring \<Rightarrow> bool" where
  "starts_with s pat \<longleftrightarrow> take (length pat) s = pat"

text \<open>\<open>pat\<close> occurs in \<open>s\<close>: \<open>s.includes(pat)\<close>.\<close>

fun occurs :: "ustring \<Rightarrow> ustring \<Rightarrow> bool" where
  "occurs pat [] = (pat = [])"
| "occurs pat (x # xs) = (starts_with (x # xs) pat \<or> occurs pat xs)"

lemma m_chars:
  "m (seqs (map Chr cs)) s k = (if starts_with s cs then k (drop (length cs) s) else None)"
proof (induction cs arbitrary: s)
  case Nil
  then show ?case by (simp add: starts_with_def)
next
  case (Cons c cs)
  show ?case
  proof (cases cs)
    case Nil
    then show ?thesis by (cases s) (auto simp: starts_with_def)
  next
    case (Cons c' cs')
    then have "seqs (map Chr (c # cs)) = Seq (Chr c) (seqs (map Chr cs))" by simp
    then show ?thesis using Cons.IH
      by (cases s) (auto simp: starts_with_def)
  qed
qed

lemma m_lit_str:
  "m (lit_str cs) s k = (if starts_with s (ustr cs) then k (drop (length cs) s) else None)"
  using m_chars[of "ustr cs" s k] by (simp add: lit_str_def ustr_def comp_def)

lemma lazy_dot_find:
  assumes "\<not> occurs pat (c @ butlast pat)" "pat \<noteq> []"
    and "\<And>s. k s = (if starts_with s pat then Some (drop (length pat) s) else None)"
  shows "m (Lazy Dot) (c @ pat @ rest) k = Some rest"
  using assms(1)
proof (induction c)
  case Nil
  then show ?case by (simp add: assms(3) starts_with_def)
next
  case (Cons x c)
  from Cons.prems have a: "\<not> starts_with (x # c @ butlast pat) pat" and b: "\<not> occurs pat (c @ butlast pat)"
    by simp_all
  have e: "x # c @ pat @ rest = (x # c @ butlast pat) @ (last pat # rest)"
    by (subst (1) append_butlast_last_id[OF assms(2), symmetric]) simp
  have "length pat \<le> length (x # c @ butlast pat)" by simp
  then have "take (length pat) (x # c @ pat @ rest) = take (length pat) (x # c @ butlast pat)"
    unfolding e by (subst take_append) simp
  with a have "\<not> starts_with (x # c @ pat @ rest) pat" by (simp add: starts_with_def)
  then have "k (x # c @ pat @ rest) = None" by (simp add: assms(3))
  with Cons.IH[OF b] show ?case by simp
qed

lemma lazy_lit:
  assumes "\<not> occurs (ustr pat) (c @ butlast (ustr pat))" "pat \<noteq> []"
  shows "m (Lazy Dot) (c @ ustr pat @ rest) (\<lambda>s. m (lit_str pat) s Some) = Some rest"
  by (rule lazy_dot_find[OF assms(1)]) (use assms(2) in \<open>simp_all add: m_lit_str ustr_def\<close>)

lemma ustr_Cons: "ustr (c # cs) = u c # ustr cs" and ustr_Nil: "ustr [] = []"
  by (simp_all add: ustr_def)

text \<open>A run of text.\<close>

lemma PRIMARY_text:
  assumes "t \<noteq> []" "list_all (\<lambda>x. x \<notin> set (ustr ''<&'')) t"
    "rest = [] \<or> hd rest \<in> set (ustr ''<&'')"
  shows "m PRIMARY (t @ rest) Some = Some rest"
proof -
  from assms(1) obtain x t' where t: "t = x # t'" by (cases t) auto
  with assms(2) have x: "x \<noteq> u CHR ''<''" "x \<noteq> u CHR ''&''"
    and t': "list_all (\<lambda>x. x \<notin> set (ustr ''<&'')) t'"
    by (simp_all add: ustr_Cons ustr_Nil)
  show ?thesis
    using x star_ncls_then[OF t' assms(3), of Some]
    by (simp add: t PRIMARY_def Plus_def Opt_def m_lit_str starts_with_def ustr_Cons ustr_Nil
        del: m.simps(8,9))
qed

text \<open>A reference \<open>&...;\<close>: the first alternative of four of the microsyntaxes.\<close>

lemma m_ref:
  assumes "body \<noteq> []" "list_all (\<lambda>x. x \<notin> set (ustr '';'')) body"
  shows "m (seqs [Chr (u CHR ''&''), Plus (NCls (ustr '';'')), Chr (u CHR '';'')])
           (u CHR ''&'' # body @ u CHR '';'' # rest) Some = Some rest"
proof -
  from assms(1) obtain x b' where b: "body = x # b'" by (cases body) auto
  with assms(2) have x: "x \<noteq> u CHR '';''"
    and b': "list_all (\<lambda>x. x \<notin> set (ustr '';'')) b'"
    by (simp_all add: ustr_Cons ustr_Nil)
  have "m (Star (NCls (ustr '';''))) (b' @ u CHR '';'' # rest) (\<lambda>s. m (Chr (u CHR '';'')) s Some)
          = Some rest"
    by (subst star_ncls_then[OF b']) (simp_all add: ustr_Cons ustr_Nil)
  then show ?thesis
    using x by (simp add: b Plus_def ustr_Cons ustr_Nil del: m.simps(8,9))
qed

lemma PRIMARY_ref:
  assumes "body \<noteq> []" "list_all (\<lambda>x. x \<notin> set (ustr '';'')) body"
  shows "m PRIMARY (u CHR ''&'' # body @ u CHR '';'' # rest) Some = Some rest"
  using m_ref[OF assms, of rest] by (simp add: PRIMARY_def del: m.simps(6,8,9))

lemma DQ_ATTR_ref:
  assumes "body \<noteq> []" "list_all (\<lambda>x. x \<notin> set (ustr '';'')) body"
  shows "m DQ_ATTR (u CHR ''&'' # body @ u CHR '';'' # rest) Some = Some rest"
  using m_ref[OF assms, of rest] by (simp add: DQ_ATTR_def del: m.simps(6,8,9))

lemma SQ_ATTR_ref:
  assumes "body \<noteq> []" "list_all (\<lambda>x. x \<notin> set (ustr '';'')) body"
  shows "m SQ_ATTR (u CHR ''&'' # body @ u CHR '';'' # rest) Some = Some rest"
  using m_ref[OF assms, of rest] by (simp add: SQ_ATTR_def del: m.simps(6,8,9))

lemma RX_ATTR_ref:
  assumes "body \<noteq> []" "list_all (\<lambda>x. x \<notin> set (ustr '';'')) body"
  shows "m RX_ATTR (u CHR ''&'' # body @ u CHR '';'' # rest) Some = Some rest"
  using m_ref[OF assms, of rest] by (simp add: RX_ATTR_def del: m.simps(6,8,9))

text \<open>Sections, comments and processing instructions.\<close>

lemma PRIMARY_section:
  assumes "\<not> occurs (ustr '']]>'') (c @ ustr '']]'')"
  shows "m PRIMARY (ustr ''<!['' @ c @ ustr '']]>'' @ rest) Some = Some rest"
proof -
  have "m (Lazy Dot) (c @ ustr '']]>'' @ rest) (\<lambda>s. m (lit_str '']]>'') s Some) = Some rest"
    by (rule lazy_lit) (use assms in \<open>simp_all add: ustr_Cons ustr_Nil\<close>)
  then show ?thesis
    by (simp add: PRIMARY_def m_lit_str starts_with_def ustr_Cons ustr_Nil u_def del: m.simps(8,9))
qed

lemma PRIMARY_comment:
  assumes "\<not> occurs (ustr ''-->'') (c @ ustr ''--'')"
  shows "m PRIMARY (ustr ''<!-'' @ c @ ustr ''-->'' @ rest) Some = Some rest"
proof -
  have "m (Lazy Dot) (c @ ustr ''-->'' @ rest) (\<lambda>s. m (lit_str ''-->'') s Some) = Some rest"
    by (rule lazy_lit) (use assms in \<open>simp_all add: ustr_Cons ustr_Nil\<close>)
  then show ?thesis
    by (simp add: PRIMARY_def m_lit_str starts_with_def ustr_Cons ustr_Nil u_def del: m.simps(8,9))
qed

lemma PRIMARY_pi:
  assumes "\<not> occurs (ustr ''?>'') (c @ ustr ''?'')"
  shows "m PRIMARY (ustr ''<?'' @ c @ ustr ''?>'' @ rest) Some = Some rest"
proof -
  have "m (Lazy Dot) (c @ ustr ''?>'' @ rest) (\<lambda>s. m (lit_str ''?>'') s Some) = Some rest"
    by (rule lazy_lit) (use assms in \<open>simp_all add: ustr_Cons ustr_Nil\<close>)
  then show ?thesis
    by (simp add: PRIMARY_def m_lit_str starts_with_def ustr_Cons ustr_Nil u_def del: m.simps(8,9))
qed

text \<open>Tag heads. \<open>name_stop\<close> are the code units that end a tag name.\<close>

definition name_stop :: "int list" where
  "name_stop = ustr ''/> '' @ [9, 13, 10]"

lemma PRIMARY_otag:
  assumes "name \<noteq> []" "list_all (\<lambda>x. x \<notin> set name_stop) name"
    "hd name \<noteq> u CHR ''!''" "hd name \<noteq> u CHR ''?''"
    "rest = [] \<or> hd rest \<in> set name_stop"
  shows "m PRIMARY (u CHR ''<'' # name @ rest) Some = Some rest"
proof -
  from assms(1) obtain x n' where n: "name = x # n'" by (cases name) auto
  with assms(2) have x: "x \<notin> set name_stop"
    and n': "list_all (\<lambda>x. x \<notin> set name_stop) n'"
    by simp_all
  from x have x': "x \<noteq> u CHR ''/''" by (auto simp: name_stop_def ustr_Cons)
  have "m (Star (NCls name_stop)) (n' @ rest) Some = Some rest"
    by (subst star_ncls_then[OF n' assms(5)]) simp_all
  then show ?thesis
    using x x' assms(3,4)
    by (simp add: n PRIMARY_def Plus_def Opt_def m_lit_str starts_with_def ustr_Cons ustr_Nil
        name_stop_def u_def del: m.simps(8,9))
qed

lemma PRIMARY_ctag:
  assumes "name \<noteq> []" "list_all (\<lambda>x. x \<notin> set name_stop) name"
    "rest = [] \<or> hd rest \<in> set name_stop"
  shows "m PRIMARY (u CHR ''<'' # u CHR ''/'' # name @ rest) Some = Some rest"
proof -
  from assms(1) obtain x n' where n: "name = x # n'" by (cases name) auto
  with assms(2) have x: "x \<notin> set name_stop"
    and n': "list_all (\<lambda>x. x \<notin> set name_stop) n'"
    by simp_all
  have "m (Star (NCls name_stop)) (n' @ rest) Some = Some rest"
    by (subst star_ncls_then[OF n' assms(3)]) simp_all
  then show ?thesis
    using x
    by (simp add: n PRIMARY_def Plus_def Opt_def m_lit_str starts_with_def ustr_Cons ustr_Nil
        name_stop_def u_def del: m.simps(8,9))
qed

lemma exec_match:
  assumes "drop i s = p @ rest" "p \<noteq> []" "m r (p @ rest) Some = Some rest"
  shows "exec r s i = Some (i + length p)" and "slice s i (i + length p) = p"
proof -
  from assms(1,2) have "i < length s" by (cases "i < length s") auto
  moreover from assms(1) have "length s - i = length p + length rest"
    by (metis length_drop length_append)
  ultimately have "length s - length rest = i + length p" by simp
  then show "exec r s i = Some (i + length p)"
    using assms by (simp add: exec_def)
  show "slice s i (i + length p) = p" using assms(1) by (simp add: slice_def)
qed

section \<open>What one iteration does to the cursor and the two stacks\<close>

text \<open>The values \<open>lit\<close> and \<open>end\<close> take.\<close>

definition lit_ok :: "rx option \<Rightarrow> bool" where
  "lit_ok l \<longleftrightarrow> l = None \<or> l = Some DQ_ATTR \<or> l = Some SQ_ATTR \<or> l = Some RX_ATTR"

definition delim_ok :: "ustring option \<Rightarrow> bool" where
  "delim_ok e = (case e of None \<Rightarrow> True | Some d \<Rightarrow> length d \<le> 1)"

lemma lit_ok_minlen: "lit_ok (Some r) \<Longrightarrow> 0 < minlen r"
  by (auto simp: lit_ok_def minlen_lexers)

definition named :: "ustring \<Rightarrow> bool" where
  "named ref \<longleftrightarrow> at ref 0 \<noteq> Some (u CHR ''#'') \<and> map_of PREDEFINED ref = None"

definition same_cursor :: "state \<Rightarrow> state \<Rightarrow> bool" where
  "same_cursor s s' \<longleftrightarrow>
     src s' = src s \<and> pos s' = pos s \<and> stack s' = stack s \<and> names s' = names s
     \<and> lit s' = lit s \<and> end_delim s' = end_delim s"

definition pushed :: "(ustring \<times> ustring) list \<Rightarrow> ustring \<Rightarrow> state \<Rightarrow> state \<Rightarrow> bool" where
  "pushed defs ref s s' \<longleftrightarrow>
     named ref \<and> ref \<notin> set (names s) \<and> map_of defs ref = Some (src s')
     \<and> names s' = names s @ [ref]
     \<and> stack s' = stack s @ [(src s, pos s, lit s, end_delim s)]
     \<and> pos s' = 0 \<and> lit s' = Some RX_ATTR \<and> end_delim s' = Some []"

lemma flush_cursor: "same_cursor s (flush s)"
  by (simp add: same_cursor_def flush_def)

lemma expand_cases: "same_cursor s (expand defs ref s) \<or> pushed defs ref s (expand defs ref s)"
  by (auto simp: expand_def same_cursor_def pushed_def named_def Let_def split: option.splits)

definition popped :: "state \<Rightarrow> state \<Rightarrow> bool" where
  "popped s s' \<longleftrightarrow>
     stack s \<noteq> [] \<and> names s' = butlast (names s) \<and> stack s' = butlast (stack s)
     \<and> src s' = fst (last (stack s)) \<and> pos s' = fst (snd (last (stack s)))
     \<and> lit s' = fst (snd (snd (last (stack s))))
     \<and> end_delim s' = snd (snd (snd (last (stack s))))"

lemma back_frame_popped: "stack s \<noteq> [] \<Longrightarrow> popped s (back_frame s)"
  by (auto simp: back_frame_def popped_def Let_def split: list.splits prod.splits)

text \<open>One iteration: what happens to the cursor and the two stacks.\<close>

definition moved :: "(ustring \<times> ustring) list \<Rightarrow> state \<Rightarrow> state \<Rightarrow> bool" where
  "moved defs s s' \<longleftrightarrow>
     (\<exists>e. pos s < e \<and> e \<le> length (src s) \<and>
        ((src s' = src s \<and> stack s' = stack s \<and> names s' = names s \<and> e \<le> pos s'
          \<and> pos s' \<le> length (src s)
          \<and> (lit s' = lit s \<or> lit s' = Some DQ_ATTR \<or> lit s' = Some SQ_ATTR)
          \<and> (end_delim s' = end_delim s \<or> (\<exists>q. end_delim s' = Some [q])))
         \<or> (\<exists>ref. pushed defs ref (s\<lparr>pos := e\<rparr>) s')))
     \<or> popped s s'
     \<or> (\<not> running s' \<and> same_cursor s s')"

lemma index_from_bounds:
  "index_from c xs i = Some j \<Longrightarrow> i \<le> j \<and> j < i + length xs"
proof (induction xs arbitrary: i)
  case Nil
  then show ?case by simp
next
  case (Cons x xs)
  show ?case
  proof (cases "x = c")
    case True
    with Cons.prems show ?thesis by simp
  next
    case False
    with Cons.prems have "index_from c xs (Suc i) = Some j" by simp
    from Cons.IH[OF this] show ?thesis by simp
  qed
qed

lemma indexOf_bounds: "indexOf s c from = Some j \<Longrightarrow> from \<le> j \<and> j < length s"
  by (auto simp: indexOf_def dest!: index_from_bounds)

lemma expand_moved:
  assumes "pos s < e" "e \<le> length (src s)"
  shows "moved defs s (expand defs ref (s\<lparr>pos := e\<rparr>))"
proof -
  let ?s = "s\<lparr>pos := e\<rparr>"
  from expand_cases[of ?s defs ref] show ?thesis
  proof
    assume "same_cursor ?s (expand defs ref ?s)"
    with assms show ?thesis unfolding moved_def same_cursor_def by auto
  next
    assume "pushed defs ref ?s (expand defs ref ?s)"
    with assms show ?thesis unfolding moved_def by blast
  qed
qed

lemma primary_token_moved:
  assumes "pos s < e" "e \<le> length (src s)"
  shows "moved defs s (primary_token defs tok (s\<lparr>pos := e\<rparr>))"
proof -
  let ?s = "s\<lparr>pos := e\<rparr>"
  have "moved defs s (expand defs (slice_end tok 1 1) ?s)"
    using assms by (rule expand_moved)
  moreover have "moved defs s (case indexOf (src (flush ?s)) (u CHR ''>'') (pos (flush ?s)) of
                 None \<Rightarrow> (flush ?s)\<lparr>active := False\<rparr>
               | Some e' \<Rightarrow> (flush ?s)\<lparr>trace := trace (flush ?s) @ [Ctag (drop 2 tok)], pos := e' + 1\<rparr>)"
    using assms flush_cursor[of ?s]
    unfolding moved_def same_cursor_def
    by (auto split: option.splits dest!: indexOf_bounds)
  moreover have "moved defs s ((flush ?s)\<lparr>tag := drop 1 tok, attrs := [], mode := Attlist\<rparr>)"
    using assms flush_cursor[of ?s] unfolding moved_def same_cursor_def by auto
  moreover have "moved defs s ?s" "moved defs s (?s\<lparr>text_buf := x\<rparr>)" for x
    using assms unfolding moved_def by auto
  ultimately show ?thesis
    unfolding primary_token_def Let_def by presburger
qed

lemma primary_step_moved: "moved defs s (primary_step defs s)"
proof (cases "exec PRIMARY (src s) (pos s)")
  case None
  then show ?thesis
    using back_frame_popped[of s]
    by (auto simp: primary_step_def moved_def same_cursor_def running_def)
next
  case (Some e)
  from exec_bounds[OF Some] have "pos s < e" "e \<le> length (src s)"
    by (simp_all add: minlen_lexers)
  from primary_token_moved[OF this] Some show ?thesis
    by (simp add: primary_step_def)
qed

lemma attlist_step_moved: "moved defs s (attlist_step s)"
proof (cases "exec ATTLIST (src s) (pos s)")
  case None
  then show ?thesis
    by (auto simp: attlist_step_def moved_def same_cursor_def running_def)
next
  case (Some e)
  from exec_bounds[OF Some] have "pos s < e" "e \<le> length (src s)"
    by (simp_all add: minlen_lexers)
  then show ?thesis using Some
    by (auto simp: attlist_step_def attlist_token_def moved_def)
qed

lemma literal_step_moved:
  assumes "lit_ok (lit s)"
  shows "moved defs s (literal_step defs s)"
proof (cases "lit s")
  case None
  then show ?thesis
    by (auto simp: literal_step_def moved_def same_cursor_def running_def)
next
  case (Some r)
  with assms have r: "0 < minlen r" by (simp add: lit_ok_minlen)
  show ?thesis
  proof (cases "exec r (src s) (pos s)")
    case None
    then show ?thesis
      using back_frame_popped[of s] Some
      by (auto simp: literal_step_def moved_def same_cursor_def running_def)
  next
    case (Some e)
    from exec_bounds[OF Some] r have e: "pos s < e" "e \<le> length (src s)" by simp_all
    let ?s = "s\<lparr>pos := e\<rparr>"
    have "moved defs s (expand defs (slice_end tok 1 1) ?s)" for tok
      using e by (rule expand_moved)
    moreover have "moved defs s (?s\<lparr>text_buf := x\<rparr>)"
      "moved defs s (?s\<lparr>attrs := y, text_buf := x, mode := z\<rparr>)" for x y z
      using e unfolding moved_def by auto
    ultimately have "moved defs s (literal_token defs tok ?s)" for tok
      unfolding literal_token_def by presburger
    then show ?thesis using Some \<open>lit s = Some r\<close>
      by (simp add: literal_step_def)
  qed
qed

lemma step_moved: "lit_ok (lit s) \<Longrightarrow> moved defs s (step defs s)"
  by (cases "mode s")
     (simp_all add: step_def primary_step_moved attlist_step_moved literal_step_moved)

section \<open>The invariant of the loops\<close>

definition inv :: "(ustring \<times> ustring) list \<Rightarrow> state \<Rightarrow> bool" where
  "inv defs s \<longleftrightarrow>
     length (stack s) = length (names s) \<and> distinct (names s)
     \<and> set (names s) \<subseteq> fst ` set defs \<and> list_all named (names s)
     \<and> lit_ok (lit s) \<and> list_all (\<lambda>f. lit_ok (fst (snd (snd f)))) (stack s)
     \<and> delim_ok (end_delim s) \<and> list_all (\<lambda>f. delim_ok (snd (snd (snd f)))) (stack s)
     \<and> (case stack s of [] \<Rightarrow> end_delim s \<noteq> Some [] | f # fs \<Rightarrow> snd (snd (snd f)) \<noteq> Some [])"

lemma inv_init: "inv defs (init doc)"
  by (simp add: inv_def init_def Let_def lit_ok_def delim_ok_def)

lemma list_all_butlast: "list_all P xs \<Longrightarrow> list_all P (butlast xs)"
  by (auto simp: list_all_iff dest: in_set_butlastD)

lemma inv_moved:
  assumes "inv defs s" "moved defs s s'"
  shows "inv defs s'"
proof -
  from assms(2) consider
    (consumed) "src s' = src s" "stack s' = stack s" "names s' = names s"
      "lit s' = lit s \<or> lit s' = Some DQ_ATTR \<or> lit s' = Some SQ_ATTR"
      "end_delim s' = end_delim s \<or> (\<exists>q. end_delim s' = Some [q])"
  | (pushed) e ref where "pushed defs ref (s\<lparr>pos := e\<rparr>) s'"
  | (popped) "popped s s'"
  | (stopped) "same_cursor s s'"
    unfolding moved_def by blast
  then show ?thesis
  proof cases
    case consumed
    with assms(1) show ?thesis
      by (auto simp: inv_def lit_ok_def delim_ok_def split: list.splits)
  next
    case pushed
    then have "ref \<in> fst ` set defs"
      by (auto simp: pushed_def dest!: map_of_SomeD intro: rev_image_eqI)
    with pushed assms(1) show ?thesis
      by (auto simp: inv_def pushed_def lit_ok_def delim_ok_def split: list.splits)
  next
    case popped
    then have ne: "stack s \<noteq> []" by (simp add: popped_def)
    then have "last (stack s) \<in> set (stack s)" by simp
    with assms(1) have "lit_ok (fst (snd (snd (last (stack s)))))"
      "delim_ok (snd (snd (snd (last (stack s)))))"
      by (auto simp: inv_def list_all_iff)
    moreover have "case butlast (stack s) of
                     [] \<Rightarrow> snd (snd (snd (last (stack s)))) \<noteq> Some []
                   | f # fs \<Rightarrow> snd (snd (snd f)) \<noteq> Some []"
      using assms(1) ne by (cases "stack s" rule: rev_cases) (auto simp: inv_def split: list.splits)
    ultimately show ?thesis using popped assms(1)
      by (auto simp: inv_def popped_def distinct_butlast list_all_butlast
          dest: in_set_butlastD split: list.splits)
  next
    case stopped
    with assms(1) show ?thesis by (auto simp: inv_def same_cursor_def split: list.splits)
  qed
qed

lemma inv_step: "inv defs s \<Longrightarrow> inv defs (step defs s)"
  using inv_moved[OF _ step_moved] by (simp add: inv_def)

subsection \<open>The measure\<close>

definition base :: "(ustring \<times> ustring) list \<Rightarrow> nat" where
  "base defs = Suc (Suc (sum_list (map (\<lambda>p. length (snd p)) defs)))"

definition wt :: "(ustring \<times> ustring) list \<Rightarrow> nat \<Rightarrow> nat" where
  "wt defs j = base defs ^ (length defs - j)"

fun frames_cost :: "(ustring \<times> ustring) list \<Rightarrow> nat \<Rightarrow> frame list \<Rightarrow> nat" where
  "frames_cost defs j [] = 0"
| "frames_cost defs j (f # fs) =
     (length (fst f) - fst (snd f)) * wt defs j + 1 + frames_cost defs (Suc j) fs"

definition cost :: "(ustring \<times> ustring) list \<Rightarrow> state \<Rightarrow> nat" where
  "cost defs s =
     frames_cost defs 0 (stack s) + (length (src s) - pos s) * wt defs (length (stack s))"

definition meas :: "(ustring \<times> ustring) list \<Rightarrow> state \<Rightarrow> nat" where
  "meas defs s = 2 * cost defs s + (if running s then 1 else 0)"

lemma wt_pos: "0 < wt defs j"
  by (simp add: wt_def base_def)

lemma frames_cost_snoc:
  "frames_cost defs j (fs @ [f]) =
     frames_cost defs j fs + (length (fst f) - fst (snd f)) * wt defs (j + length fs) + 1"
  by (induction fs arbitrary: j) simp_all

lemma length_le_base: "map_of defs ref = Some v \<Longrightarrow> length v + 2 \<le> base defs"
proof -
  assume "map_of defs ref = Some v"
  then have "(ref, v) \<in> set defs" by (rule map_of_SomeD)
  then have "length (snd (ref, v)) \<in> set (map (\<lambda>p. length (snd p)) defs)"
    by force
  then have "length (snd (ref, v)) \<le> sum_list (map (\<lambda>p. length (snd p)) defs)"
    by (rule member_le_sum_list) simp
  then show ?thesis by (simp add: base_def)
qed

lemma wt_step:
  assumes "j < length defs" "map_of defs ref = Some v"
  shows "length v * wt defs (Suc j) + 2 \<le> wt defs j"
proof -
  from assms(1) have "length defs - j = Suc (length defs - Suc j)" by simp
  then have w: "wt defs j = base defs * wt defs (Suc j)" by (simp add: wt_def)
  have "length v * wt defs (Suc j) + 2 \<le> length v * wt defs (Suc j) + 2 * wt defs (Suc j)"
    using wt_pos[of defs "Suc j"] by simp
  also have "\<dots> = (length v + 2) * wt defs (Suc j)" by (simp add: algebra_simps)
  also have "\<dots> \<le> base defs * wt defs (Suc j)"
    using length_le_base[OF assms(2)] by (rule mult_le_mono1)
  finally show ?thesis using w by simp
qed

lemma depth_bound:
  assumes "inv defs s" "ref \<notin> set (names s)" "map_of defs ref = Some v"
  shows "length (stack s) < length defs"
proof -
  from assms(3) have "ref \<in> fst ` set defs"
    by (auto dest!: map_of_SomeD intro: rev_image_eqI)
  with assms(1) have "insert ref (set (names s)) \<subseteq> fst ` set defs" by (simp add: inv_def)
  then have "card (insert ref (set (names s))) \<le> card (fst ` set defs)"
    by (intro card_mono) simp_all
  also have "\<dots> \<le> length defs" by (metis card_image_le card_length le_trans List.finite_set)
  finally have "Suc (card (set (names s))) \<le> length defs" using assms(2) by simp
  moreover from assms(1) have "card (set (names s)) = length (stack s)"
    by (simp add: inv_def distinct_card)
  ultimately show ?thesis by simp
qed

lemma cost_moved:
  assumes "inv defs s" "running s" "moved defs s s'"
  shows "meas defs s' < meas defs s"
proof -
  let ?k = "length (stack s)"
  let ?fc = "frames_cost defs 0 (stack s)"
  from assms(3) consider
    (consumed) "src s' = src s" "stack s' = stack s" "pos s < pos s'" "pos s' \<le> length (src s)"
  | (pushed) e ref where "pos s < e" "e \<le> length (src s)" "pushed defs ref (s\<lparr>pos := e\<rparr>) s'"
  | (popped) "popped s s'"
  | (stopped) "\<not> running s'" "same_cursor s s'"
    unfolding moved_def by force
  then show ?thesis
  proof cases
    case consumed
    then have "length (src s) - pos s' < length (src s) - pos s" by simp
    then have "(length (src s) - pos s') * wt defs ?k < (length (src s) - pos s) * wt defs ?k"
      using wt_pos[of defs ?k] by simp
    with consumed have "cost defs s' < cost defs s" by (simp add: cost_def)
    then show ?thesis using assms(2) by (simp add: meas_def)
  next
    case pushed
    then have p: "map_of defs ref = Some (src s')" "ref \<notin> set (names s)"
      "stack s' = stack s @ [(src s, e, lit s, end_delim s)]" "pos s' = 0"
      by (simp_all add: pushed_def)
    from depth_bound[OF assms(1) p(2) p(1)] have "?k < length defs" .
    from wt_step[OF this p(1)]
    have w: "length (src s') * wt defs (Suc ?k) + 2 \<le> wt defs ?k" .
    have "cost defs s' = ?fc + (length (src s) - e) * wt defs ?k + 1
            + length (src s') * wt defs (Suc ?k)"
      using p by (simp add: cost_def frames_cost_snoc)
    also have "\<dots> < ?fc + (length (src s) - e) * wt defs ?k + wt defs ?k"
      using w by simp
    also have "\<dots> = ?fc + Suc (length (src s) - e) * wt defs ?k" by simp
    also have "\<dots> \<le> ?fc + (length (src s) - pos s) * wt defs ?k"
      using pushed(1,2) by (intro add_left_mono mult_le_mono1) simp
    finally have "cost defs s' < cost defs s" by (simp add: cost_def)
    then show ?thesis using assms(2) by (simp add: meas_def)
  next
    case popped
    then have ne: "stack s \<noteq> []" and st: "stack s' = butlast (stack s)"
      and sp: "src s' = fst (last (stack s))" "pos s' = fst (snd (last (stack s)))"
      by (simp_all add: popped_def)
    from ne have "stack s = butlast (stack s) @ [last (stack s)]" by simp
    then have "?fc = frames_cost defs 0 (butlast (stack s) @ [last (stack s)])" by simp
    also have "\<dots> = frames_cost defs 0 (stack s')
        + (length (src s') - pos s') * wt defs (length (stack s')) + 1"
      unfolding frames_cost_snoc using st sp by simp
    finally have "cost defs s' < cost defs s" by (simp add: cost_def)
    then show ?thesis using assms(2) by (simp add: meas_def)
  next
    case stopped
    then have "cost defs s' = cost defs s" by (simp add: cost_def same_cursor_def)
    then show ?thesis using assms(2) stopped(1) by (simp add: meas_def)
  qed
qed

lemma fast_xml_Some: "\<exists>t. fast_xml defs doc = Some t"
  unfolding fast_xml_def
proof (rule measure_while_option_Some[where P = "inv defs" and f = "meas defs"])
  fix s assume "inv defs s" "running s"
  then show "inv defs (step defs s) \<and> meas defs (step defs s) < meas defs s"
    using cost_moved[OF _ _ step_moved, of defs s] inv_step[of defs s] by (simp add: inv_def)
next
  show "inv defs (init doc)" by (rule inv_init)
qed

section \<open>Executions\<close>

text \<open>
  The state after at most \<open>n\<close> iterations of the loops: every state \<open>fast_xml\<close> passes
  through is \<open>steps defs n (init doc)\<close> for some \<open>n\<close>.
\<close>

fun steps :: "(ustring \<times> ustring) list \<Rightarrow> nat \<Rightarrow> state \<Rightarrow> state" where
  "steps defs 0 s = s"
| "steps defs (Suc n) s = (if running s then steps defs n (step defs s) else s)"

lemma inv_steps: "inv defs s \<Longrightarrow> inv defs (steps defs n s)"
  by (induction n arbitrary: s) (simp_all add: inv_step)

lemma inv_reachable: "inv defs (steps defs n (init doc))"
  by (rule inv_steps[OF inv_init])

text \<open>
  C8. After any number of iterations of the loops of \<open>fast_xml\<close>, on every document and
  entity table, the frame stack and the name stack have the same length.
\<close>

theorem stacks_in_lockstep:
  "length (stack (steps defs n (init doc))) = length (names (steps defs n (init doc)))"
  using inv_reachable[of defs n doc] by (simp add: inv_def)

subsection \<open>A reference to a name that is being expanded\<close>

lemma lexer_name:
  assumes "r \<in> {PRIMARY, DQ_ATTR, SQ_ATTR, RX_ATTR}"
    and "drop i s = u CHR ''&'' # ref @ u CHR '';'' # rest"
    and "ref \<noteq> []" and "list_all (\<lambda>x. x \<noteq> u CHR '';'') ref"
  shows "exec r s i = Some (i + length ref + 2)"
    and "slice s i (i + length ref + 2) = u CHR ''&'' # ref @ [u CHR '';'']"
proof -
  let ?tok = "u CHR ''&'' # ref @ [u CHR '';'']"
  have b: "list_all (\<lambda>x. x \<notin> set (ustr '';'')) ref"
    using assms(4) by (simp add: ustr_def u_def)
  have d: "drop i s = ?tok @ rest" using assms(2) by simp
  have "m r (u CHR ''&'' # ref @ u CHR '';'' # rest) Some = Some rest"
    using assms(1) PRIMARY_ref[OF assms(3) b] DQ_ATTR_ref[OF assms(3) b]
      SQ_ATTR_ref[OF assms(3) b] RX_ATTR_ref[OF assms(3) b]
    by blast
  then have mm: "m r (?tok @ rest) Some = Some rest" by simp
  have n: "i + length ?tok = i + length ref + 2" by simp
  show "exec r s i = Some (i + length ref + 2)"
    using exec_match(1)[OF d _ mm] unfolding n by simp
  show "slice s i (i + length ref + 2) = u CHR ''&'' # ref @ [u CHR '';'']"
    using exec_match(2)[OF d _ mm] unfolding n by simp
qed

lemma slice_end_name: "slice_end (a # b @ [c]) 1 1 = b"
  by (simp add: slice_end_def)

text \<open>The iteration at a reference \<open>&ref;\<close> calls \<open>expand\<close> with the cursor behind it.\<close>

lemma name_step:
  assumes "drop (pos s) (src s) = u CHR ''&'' # ref @ u CHR '';'' # rest"
    and "ref \<noteq> []" and "list_all (\<lambda>x. x \<noteq> u CHR '';'') ref"
    and "mode s = Primary \<or> mode s = Literal \<and> lit s \<noteq> None"
    and "lit_ok (lit s)" and "delim_ok (end_delim s)"
  shows "step defs s = expand defs ref (s\<lparr>pos := pos s + length ref + 2\<rparr>)"
proof -
  let ?tok = "u CHR ''&'' # ref @ [u CHR '';'']"
  have a0: "at ?tok 0 = Some (u CHR ''&'')"
    by (simp add: at_def)
  have se: "slice_end ?tok 1 1 = ref"
    by (rule slice_end_name)
  from assms(4) show ?thesis
  proof
    assume p: "mode s = Primary"
    have e: "exec PRIMARY (src s) (pos s) = Some (pos s + length ref + 2)"
      and t: "slice (src s) (pos s) (pos s + length ref + 2) = ?tok"
      using lexer_name[OF _ assms(1,2,3), of PRIMARY] by simp_all
    show ?thesis
      unfolding step_def p mode.case primary_step_def e t option.case primary_token_def a0 se
      by (simp add: u_def)
  next
    assume l: "mode s = Literal \<and> lit s \<noteq> None"
    with assms(5) obtain r where r: "lit s = Some r" "r \<in> {PRIMARY, DQ_ATTR, SQ_ATTR, RX_ATTR}"
      by (auto simp: lit_ok_def)
    have e: "exec r (src s) (pos s) = Some (pos s + length ref + 2)"
      and t: "slice (src s) (pos s) (pos s + length ref + 2) = ?tok"
      using lexer_name[OF r(2) assms(1,2,3)] by simp_all
    have ne: "Some ?tok \<noteq> end_delim (s\<lparr>pos := pos s + length ref + 2\<rparr>)"
      using assms(6) by (cases "end_delim s") (auto simp: delim_ok_def)
    show ?thesis
      unfolding step_def literal_step_def r(1) e t option.case literal_token_def a0 se
      using l ne by (simp add: u_def)
  qed
qed

text \<open>\<open>expand\<close> of a name that is on the name stack returns at once.\<close>

lemma expand_on_names:
  assumes "named ref" "ref \<in> set (names s)"
  shows "expand defs ref s = s"
  using assms by (simp add: expand_def named_def split: option.splits)

lemma recursive_step:
  assumes "inv defs s"
    and "drop (pos s) (src s) = u CHR ''&'' # ref @ u CHR '';'' # rest"
    and "ref \<noteq> []" and "list_all (\<lambda>x. x \<noteq> u CHR '';'') ref"
    and "mode s = Primary \<or> mode s = Literal \<and> lit s \<noteq> None"
    and "ref \<in> set (names s)"
  shows "step defs s = s\<lparr>pos := pos s + length ref + 2\<rparr>"
proof -
  from assms(1) have "lit_ok (lit s)" "delim_ok (end_delim s)" "list_all named (names s)"
    by (simp_all add: inv_def)
  with assms(6) have n: "named ref" by (simp add: list_all_iff)
  have "step defs s = expand defs ref (s\<lparr>pos := pos s + length ref + 2\<rparr>)"
    using assms(2,3,4,5) \<open>lit_ok (lit s)\<close> \<open>delim_ok (end_delim s)\<close> by (rule name_step)
  also have "\<dots> = s\<lparr>pos := pos s + length ref + 2\<rparr>"
    using n assms(6) by (intro expand_on_names) simp_all
  finally show ?thesis .
qed

text \<open>
  C3. \<open>fast_xml\<close> returns on every document and every entity table. And in every state a read
  passes through, the iteration at a reference \<open>&ref;\<close> whose name is on the name stack, in
  the top-level loop or in the literal loop of an attribute value (where \<open>lit\<close> is defined,
  so that the loop reads a token), only moves the cursor behind the reference: no frame is
  pushed, no name is pushed, no text is appended, no hook is called, and the read is still
  active. (\<open>ref\<close> is what stands between \<open>&\<close> and the first \<open>;\<close>, and is not empty.)
\<close>

theorem fast_xml_terminates:
  "(\<exists>t. fast_xml defs doc = Some t)
   \<and> (let s = steps defs n (init doc) in
        running s \<and> ref \<in> set (names s)
        \<and> drop (pos s) (src s) = u CHR ''&'' # ref @ u CHR '';'' # rest
        \<and> ref \<noteq> [] \<and> list_all (\<lambda>x. x \<noteq> u CHR '';'') ref
        \<and> (mode s = Primary \<or> mode s = Literal \<and> lit s \<noteq> None)
        \<longrightarrow> step defs s = s\<lparr>pos := pos s + length ref + 2\<rparr>
            \<and> running (step defs s))"
proof
  show "\<exists>t. fast_xml defs doc = Some t" by (rule fast_xml_Some)
next
  let ?s = "steps defs n (init doc)"
  have "step defs ?s = ?s\<lparr>pos := pos ?s + length ref + 2\<rparr> \<and> running (step defs ?s)"
    if h: "running ?s" "ref \<in> set (names ?s)"
      "drop (pos ?s) (src ?s) = u CHR ''&'' # ref @ u CHR '';'' # rest"
      "ref \<noteq> []" "list_all (\<lambda>x. x \<noteq> u CHR '';'') ref"
      "mode ?s = Primary \<or> mode ?s = Literal \<and> lit ?s \<noteq> None"
  proof -
    have st: "step defs ?s = ?s\<lparr>pos := pos ?s + length ref + 2\<rparr>"
      using inv_reachable h(3,4,5,6,2) by (rule recursive_step)
    moreover have "running (step defs ?s)"
      using h(1) unfolding st by (simp add: running_def)
    ultimately show ?thesis by simp
  qed
  then show "let s = ?s in
        running s \<and> ref \<in> set (names s)
        \<and> drop (pos s) (src s) = u CHR ''&'' # ref @ u CHR '';'' # rest
        \<and> ref \<noteq> [] \<and> list_all (\<lambda>x. x \<noteq> u CHR '';'') ref
        \<and> (mode s = Primary \<or> mode s = Literal \<and> lit s \<noteq> None)
        \<longrightarrow> step defs s = s\<lparr>pos := pos s + length ref + 2\<rparr>
            \<and> running (step defs s)"
    unfolding Let_def by blast
qed

text \<open>
  Two entities that refer to each other, read at top level, and an entity that refers to
  itself, read in an attribute value. After six iterations the first read is at \<open>&a;\<close> in
  the replacement \<open>y&a;z\<close> of \<open>b\<close>, with \<open>a\<close> and \<open>b\<close> on the name stack; after five
  iterations the second read is at \<open>&a;\<close> in the replacement \<open>x&a;y\<close> of \<open>a\<close>.
\<close>

definition cyclic_defs :: "(ustring \<times> ustring) list" where
  "cyclic_defs = [(ustr ''a'', ustr ''x&b;''), (ustr ''b'', ustr ''y&a;z'')]"

definition cyclic_doc :: ustring where
  "cyclic_doc = ustr ''<r>&a;</r>''"

definition self_defs :: "(ustring \<times> ustring) list" where
  "self_defs = [(ustr ''a'', ustr ''x&a;y'')]"

definition self_doc :: ustring where
  \<open>self_doc = ustr ''<r b="&a;"/>''\<close>

theorem fast_xml_terminates_witness:
  "(\<exists>t. fast_xml cyclic_defs cyclic_doc = Some t)
   \<and> names (steps cyclic_defs 6 (init cyclic_doc)) = [ustr ''a'', ustr ''b'']
   \<and> mode (steps cyclic_defs 6 (init cyclic_doc)) = Primary
   \<and> step cyclic_defs (steps cyclic_defs 6 (init cyclic_doc))
       = (steps cyclic_defs 6 (init cyclic_doc))\<lparr>pos := 4\<rparr>
   \<and> running (step cyclic_defs (steps cyclic_defs 6 (init cyclic_doc)))
   \<and> (\<exists>t. fast_xml self_defs self_doc = Some t)
   \<and> names (steps self_defs 5 (init self_doc)) = [ustr ''a'']
   \<and> mode (steps self_defs 5 (init self_doc)) = Literal
   \<and> step self_defs (steps self_defs 5 (init self_doc))
       = (steps self_defs 5 (init self_doc))\<lparr>pos := 4\<rparr>
   \<and> running (step self_defs (steps self_defs 5 (init self_doc)))"
proof -
  let ?s = "steps cyclic_defs 6 (init cyclic_doc)"
  let ?t = "steps self_defs 5 (init self_doc)"
  have s: "running ?s" "names ?s = [ustr ''a'', ustr ''b'']" "mode ?s = Primary" "pos ?s = 1"
    "drop (pos ?s) (src ?s) = u CHR ''&'' # ustr ''a'' @ u CHR '';'' # ustr ''z''"
    by code_simp+
  have t: "running ?t" "names ?t = [ustr ''a'']" "mode ?t = Literal" "pos ?t = 1"
    "lit ?t \<noteq> None"
    "drop (pos ?t) (src ?t) = u CHR ''&'' # ustr ''a'' @ u CHR '';'' # ustr ''y''"
    by code_simp+
  have a: "ustr ''a'' \<noteq> []" "list_all (\<lambda>x. x \<noteq> u CHR '';'') (ustr ''a'')"
    "length (ustr ''a'') = 1"
    by code_simp+
  from fast_xml_terminates[where defs = cyclic_defs and doc = cyclic_doc and n = 6
      and ref = "ustr ''a''" and rest = "ustr ''z''"] s a
  have 1: "(\<exists>t. fast_xml cyclic_defs cyclic_doc = Some t)
           \<and> step cyclic_defs ?s = ?s\<lparr>pos := 4\<rparr> \<and> running (step cyclic_defs ?s)"
    unfolding Let_def by (simp add: running_def)
  from fast_xml_terminates[where defs = self_defs and doc = self_doc and n = 5
      and ref = "ustr ''a''" and rest = "ustr ''y''"] t a
  have 2: "(\<exists>t. fast_xml self_defs self_doc = Some t)
           \<and> step self_defs ?t = ?t\<lparr>pos := 4\<rparr> \<and> running (step self_defs ?t)"
    unfolding Let_def by (simp add: running_def)
  from 1 2 s(2,3) t(2,3) show ?thesis by blast
qed

lemma self_hooks:
  "hooks self_defs self_doc
     = Some [Head [], Otag (ustr ''r'') [(ustr ''b'', ustr ''xy'')], Ctag (ustr ''r'')]"
  by code_simp

lemma cyclic_hooks:
  "hooks cyclic_defs cyclic_doc = Some [Head [], Otag (ustr ''r'') [], Text (ustr ''xyz''), Ctag (ustr ''r'')]"
  by code_simp

section \<open>The reparsing example\<close>

definition example_defs :: "(ustring \<times> ustring) list" where
  \<open>example_defs = [(ustr ''b'', ustr ''"&c;"''), (ustr ''c'', ustr ''(<d e="f"/>)'')]\<close>

definition example_doc :: ustring where
  \<open>example_doc = ustr ''<a a="[&b;]">[&b;]</a>''\<close>

text \<open>
  C1. With the entities \<open>b = "&c;"\<close> (the double quotes are part of the replacement) and
  \<open>c = (<d e="f"/>)\<close>, the document \<open><a a="[&b;]">[&b;]</a>\<close> calls, after \<open>head\<close> with
  the empty prolog, exactly \<open>otag a\<close> with the attribute \<open>a\<close> bound to the literal text
  \<open>["(<d e="f"/>)"]\<close>, \<open>text ["(\<close>, \<open>otag d\<close> with \<open>e = f\<close>, \<open>ctag d\<close>, \<open>text )"]\<close> and
  \<open>ctag a\<close>: the entity is reparsed as markup at top level and is literal text, with its
  nested reference expanded, inside the attribute value.
\<close>

theorem reparsing_example:
  \<open>hooks example_defs example_doc =
     Some [Head [],
           Otag (ustr ''a'') [(ustr ''a'', ustr ''["(<d e="f"/>)"]'')],
           Text (ustr ''["(''),
           Otag (ustr ''d'') [(ustr ''e'', ustr ''f'')],
           Ctag (ustr ''d''),
           Text (ustr '')"]''),
           Ctag (ustr ''a'')]\<close>
  by code_simp

section \<open>End tags\<close>

lemma index_from_takeWhile:
  "index_from c xs i =
     (if c \<in> set xs then Some (i + length (takeWhile (\<lambda>x. x \<noteq> c) xs)) else None)"
  by (induction xs arbitrary: i) auto

lemma indexOf_takeWhile:
  "indexOf s c i =
     (if c \<in> set (drop i s) then Some (i + length (takeWhile (\<lambda>x. x \<noteq> c) (drop i s)))
      else None)"
  by (simp add: indexOf_def index_from_takeWhile)

lemma drop_drop_eq:
  assumes "drop i s = p @ rest"
  shows "drop (i + length p) s = rest"
proof -
  have "drop (i + length p) s = drop (length p) (drop i s)" by (simp add: add.commute)
  then show ?thesis using assms by simp
qed

lemma ctag_step:
  assumes "mode s = Primary"
    and "drop (pos s) (src s) = u CHR ''<'' # u CHR ''/'' # name @ rest"
    and "name \<noteq> []"
    and "list_all (\<lambda>x. x \<notin> set name_stop) name"
    and "rest = [] \<or> hd rest \<in> set name_stop"
  shows "step defs s =
     (if u CHR ''>'' \<in> set rest
      then s\<lparr>pos := pos s + 2 + length name + length (takeWhile (\<lambda>x. x \<noteq> u CHR ''>'') rest) + 1,
             text_buf := [],
             trace := trace s @ (if text_buf s \<noteq> [] then [Text (text_buf s)] else [])
                        @ [Ctag name]\<rparr>
      else s\<lparr>pos := pos s + 2 + length name,
             text_buf := [],
             active := False,
             trace := trace s @ (if text_buf s \<noteq> [] then [Text (text_buf s)] else [])\<rparr>)"
proof -
  let ?tok = "u CHR ''<'' # u CHR ''/'' # name"
  have d: "drop (pos s) (src s) = ?tok @ rest" using assms(2) by simp
  have mm: "m PRIMARY (?tok @ rest) Some = Some rest"
    using PRIMARY_ctag[OF assms(3,4,5)] by simp
  have e: "exec PRIMARY (src s) (pos s) = Some (pos s + length ?tok)"
    and t: "slice (src s) (pos s) (pos s + length ?tok) = ?tok"
    using exec_match[OF d _ mm] by simp_all
  have r: "drop (pos s + length ?tok) (src s) = rest" by (rule drop_drop_eq[OF d])
  have a0: "at ?tok 0 = Some (u CHR ''<'')" and a1: "at ?tok 1 = Some (u CHR ''/'')"
    by (simp_all add: at_def)
  have ps: "primary_step defs s = primary_token defs ?tok (s\<lparr>pos := pos s + length ?tok\<rparr>)"
    by (simp only: primary_step_def e t option.case)
  have ix: "indexOf (src s) (u CHR ''>'') (pos s + length ?tok) =
     (if u CHR ''>'' \<in> set rest then Some (pos s + length ?tok + length (takeWhile (\<lambda>x. x \<noteq> u CHR ''>'') rest))
      else None)"
    by (simp only: indexOf_takeWhile r)
  show ?thesis
    unfolding step_def assms(1) mode.case ps primary_token_def a0 a1
    using ix by (simp add: flush_def Let_def)
qed

text \<open>
  C7. In the top-level loop, at an end-tag head \<open></name\<close> (the name running up to the
  first of \<open>/\<close>, \<open>>\<close>, space, tab, carriage return, line feed, or to the end of the source):
  a non-empty text buffer goes to the text hook first and the buffer is emptied; if a \<open>>\<close>
  follows in the source, \<open>ctag\<close> is called with the name and the cursor goes just behind the
  first such \<open>>\<close>, whatever stands before it; if none follows, the read is deactivated,
  and only then.
\<close>

theorem end_tag:
  assumes "mode s = Primary"
    and "drop (pos s) (src s) = u CHR ''<'' # u CHR ''/'' # name @ rest"
    and "name \<noteq> []"
    and "list_all (\<lambda>x. x \<notin> set name_stop) name"
    and "rest = [] \<or> hd rest \<in> set name_stop"
  shows "step defs s =
     (if u CHR ''>'' \<in> set rest
      then s\<lparr>pos := pos s + 2 + length name + length (takeWhile (\<lambda>x. x \<noteq> u CHR ''>'') rest) + 1,
             text_buf := [],
             trace := trace s @ (if text_buf s \<noteq> [] then [Text (text_buf s)] else [])
                        @ [Ctag name]\<rparr>
      else s\<lparr>pos := pos s + 2 + length name,
             text_buf := [],
             active := False,
             trace := trace s @ (if text_buf s \<noteq> [] then [Text (text_buf s)] else [])\<rparr>)"
  using assms by (rule ctag_step)

definition end_tag_state :: state where
  "end_tag_state = steps [] 3 (init (ustr ''<a>x</a  >y''))"

theorem end_tag_witness:
  "mode end_tag_state = Primary
   \<and> drop (pos end_tag_state) (src end_tag_state)
       = u CHR ''<'' # u CHR ''/'' # ustr ''a'' @ ustr ''  >y''
   \<and> step [] end_tag_state
       = end_tag_state\<lparr>pos := 10, text_buf := [],
                        trace := [Head [], Otag (ustr ''a'') [], Text (ustr ''x''), Ctag (ustr ''a'')]\<rparr>"
proof -
  have h1: "mode end_tag_state = Primary" by code_simp
  have h2: "drop (pos end_tag_state) (src end_tag_state)
              = u CHR ''<'' # u CHR ''/'' # ustr ''a'' @ ustr ''  >y''" by code_simp
  have h3: "ustr ''a'' \<noteq> []" by (simp add: ustr_def)
  have h4: "list_all (\<lambda>x. x \<notin> set name_stop) (ustr ''a'')"
    by (simp add: ustr_def name_stop_def u_def)
  have h5: "ustr ''  >y'' = [] \<or> hd (ustr ''  >y'') \<in> set name_stop"
    by (simp add: ustr_def name_stop_def u_def)
  have p: "pos end_tag_state = 4" "text_buf end_tag_state = ustr ''x''"
    "trace end_tag_state = [Head [], Otag (ustr ''a'') []]" by code_simp+
  from end_tag[OF h1 h2 h3 h4 h5, of "[]"] h1 h2 show ?thesis
    by (simp add: p ustr_def u_def)
qed

section \<open>Numeric references\<close>

lemma lexer_ref:
  assumes "r \<in> {PRIMARY, DQ_ATTR, SQ_ATTR, RX_ATTR}"
    and "drop i s = u CHR ''&'' # u CHR ''#'' # body @ u CHR '';'' # rest"
    and "list_all (\<lambda>x. x \<noteq> u CHR '';'') body"
  shows "exec r s i = Some (i + length body + 3)"
    and "slice s i (i + length body + 3) = u CHR ''&'' # u CHR ''#'' # body @ [u CHR '';'']"
proof -
  let ?b = "u CHR ''#'' # body"
  let ?tok = "u CHR ''&'' # ?b @ [u CHR '';'']"
  have b: "?b \<noteq> []" "list_all (\<lambda>x. x \<notin> set (ustr '';'')) ?b"
    using assms(3) by (simp_all add: ustr_def u_def)
  have d: "drop i s = ?tok @ rest" using assms(2) by simp
  have "m r (u CHR ''&'' # ?b @ u CHR '';'' # rest) Some = Some rest"
    using assms(1) PRIMARY_ref[OF b] DQ_ATTR_ref[OF b] SQ_ATTR_ref[OF b] RX_ATTR_ref[OF b]
    by blast
  then have mm: "m r (?tok @ rest) Some = Some rest" by simp
  have n: "i + length ?tok = i + length body + 3" by simp
  show "exec r s i = Some (i + length body + 3)"
    using exec_match(1)[OF d _ mm] unfolding n by simp
  show "slice s i (i + length body + 3) = u CHR ''&'' # u CHR ''#'' # body @ [u CHR '';'']"
    using exec_match(2)[OF d _ mm] unfolding n by simp
qed

lemma slice_end_ref: "slice_end (a # b @ [c]) 1 1 = b"
  by (simp add: slice_end_def)

lemma while_option_stopped: "\<not> running s \<Longrightarrow> while_option running f s = Some s"
  by (subst while_option_unfold) simp

lemma expand_numeric:
  "expand defs (u CHR ''#'' # body) s =
     (case ref_code (u CHR ''#'' # body) of
        None \<Rightarrow> s\<lparr>active := False\<rparr>
      | Some c \<Rightarrow> if 0 \<le> c \<and> c < 0x110000 then s\<lparr>text_buf := text_buf s @ fromCodePoint c\<rparr>
                  else s\<lparr>active := False\<rparr>)"
  by (simp add: expand_def at_def)

lemma numeric_step:
  assumes "drop (pos s) (src s) = u CHR ''&'' # u CHR ''#'' # body @ u CHR '';'' # rest"
    and "list_all (\<lambda>x. x \<noteq> u CHR '';'') body"
    and "mode s = Primary \<or> mode s = Literal \<and> lit s \<noteq> None"
    and "lit_ok (lit s)" and "delim_ok (end_delim s)"
  shows "step defs s = expand defs (u CHR ''#'' # body) (s\<lparr>pos := pos s + length body + 3\<rparr>)"
proof -
  let ?tok = "u CHR ''&'' # u CHR ''#'' # body @ [u CHR '';'']"
  have a0: "at ?tok 0 = Some (u CHR ''&'')"
    by (simp add: at_def)
  have se: "slice_end ?tok 1 1 = u CHR ''#'' # body"
    using slice_end_ref[of "u CHR ''&''" "u CHR ''#'' # body" "u CHR '';''"] by simp
  from assms(3) show ?thesis
  proof
    assume p: "mode s = Primary"
    have e: "exec PRIMARY (src s) (pos s) = Some (pos s + length body + 3)"
      and t: "slice (src s) (pos s) (pos s + length body + 3) = ?tok"
      using lexer_ref[OF _ assms(1,2), of PRIMARY] by simp_all
    show ?thesis
      unfolding step_def p mode.case primary_step_def e t option.case primary_token_def a0 se
      by (simp add: u_def)
  next
    assume l: "mode s = Literal \<and> lit s \<noteq> None"
    with assms(4) obtain r where r: "lit s = Some r" "r \<in> {PRIMARY, DQ_ATTR, SQ_ATTR, RX_ATTR}"
      by (auto simp: lit_ok_def)
    have e: "exec r (src s) (pos s) = Some (pos s + length body + 3)"
      and t: "slice (src s) (pos s) (pos s + length body + 3) = ?tok"
      using lexer_ref[OF r(2) assms(1,2)] by simp_all
    have ne: "Some ?tok \<noteq> end_delim (s\<lparr>pos := pos s + length body + 3\<rparr>)"
      using assms(5) by (cases "end_delim s") (auto simp: delim_ok_def)
    show ?thesis
      unfolding step_def literal_step_def r(1) e t option.case literal_token_def a0 se
      using l ne by (simp add: u_def)
  qed
qed

text \<open>
  C2, as the code has it. In every state a read passes through, at a numeric reference
  \<open>&#...;\<close> in the top-level loop or in the literal loop of an attribute value (where
  \<open>lit\<close> is defined, so that the loop reads a token): when the number parsed is a code point, from 0 to
  0x10FFFF (the surrogates 0xD800 to 0xDFFF among them), its UTF-16 encoding is appended to
  the text buffer and the read goes on behind the reference; when it is out of that range or
  nothing can be parsed, this iteration is the last one of the read, and it calls no hook.
  \<open>&#38;\<close> and \<open>&#x26;\<close> both give \<open>&\<close>; \<open>&#x110000;\<close> is out of range.
\<close>

theorem numeric_reference:
  assumes "s = steps defs n (init doc)" and "running s"
    and "drop (pos s) (src s) = u CHR ''&'' # u CHR ''#'' # body @ u CHR '';'' # rest"
    and "list_all (\<lambda>x. x \<noteq> u CHR '';'') body"
    and "mode s = Primary \<or> mode s = Literal \<and> lit s \<noteq> None"
  shows "(case ref_code (u CHR ''#'' # body) of
            None \<Rightarrow>
              while_option running (step defs) s
                = Some (s\<lparr>pos := pos s + length body + 3, active := False\<rparr>)
          | Some c \<Rightarrow>
              if 0 \<le> c \<and> c < 0x110000
              then step defs s = s\<lparr>pos := pos s + length body + 3,
                                   text_buf := text_buf s @ fromCodePoint c\<rparr>
                   \<and> running (step defs s)
              else while_option running (step defs) s
                     = Some (s\<lparr>pos := pos s + length body + 3, active := False\<rparr>))
         \<and> ref_code (ustr ''#38'') = Some 38 \<and> ref_code (ustr ''#x26'') = Some 38
         \<and> fromCodePoint 38 = ustr ''&''
         \<and> ref_code (ustr ''#x110000'') = Some 0x110000"
proof -
  let ?p = "pos s + length body + 3"
  have "inv defs s" unfolding assms(1) by (rule inv_reachable)
  then have "lit_ok (lit s)" "delim_ok (end_delim s)" by (simp_all add: inv_def)
  then have st: "step defs s = expand defs (u CHR ''#'' # body) (s\<lparr>pos := ?p\<rparr>)"
    by (intro numeric_step[OF assms(3,4,5)])
  have stop: "while_option running (step defs) s = Some (s\<lparr>pos := ?p, active := False\<rparr>)"
    if "step defs s = s\<lparr>pos := ?p, active := False\<rparr>"
  proof -
    have "while_option running (step defs) s = while_option running (step defs) (step defs s)"
      using assms(2) by (subst while_option_unfold) simp
    also have "\<dots> = Some (step defs s)"
      by (rule while_option_stopped) (simp add: that running_def)
    finally show ?thesis using that by simp
  qed
  have "case ref_code (u CHR ''#'' # body) of
            None \<Rightarrow>
              while_option running (step defs) s = Some (s\<lparr>pos := ?p, active := False\<rparr>)
          | Some c \<Rightarrow>
              if 0 \<le> c \<and> c < 0x110000
              then step defs s = s\<lparr>pos := ?p, text_buf := text_buf s @ fromCodePoint c\<rparr>
                   \<and> running (step defs s)
              else while_option running (step defs) s = Some (s\<lparr>pos := ?p, active := False\<rparr>)"
  proof (cases "ref_code (u CHR ''#'' # body)")
    case None
    then have "step defs s = s\<lparr>pos := ?p, active := False\<rparr>"
      by (simp add: st expand_numeric)
    from stop[OF this] None show ?thesis by simp
  next
    case (Some c)
    show ?thesis
    proof (cases "0 \<le> c \<and> c < 0x110000")
      case True
      then have "step defs s = s\<lparr>pos := ?p, text_buf := text_buf s @ fromCodePoint c\<rparr>"
        using Some by (simp add: st expand_numeric)
      then show ?thesis using Some True assms(2) by (simp add: running_def)
    next
      case False
      with Some have "step defs s = s\<lparr>pos := ?p, active := False\<rparr>"
        by (auto simp: st expand_numeric)
      from stop[OF this] Some False show ?thesis by auto
    qed
  qed
  moreover have "ref_code (ustr ''#38'') = Some 38" "ref_code (ustr ''#x26'') = Some 38"
    "fromCodePoint 38 = ustr ''&''" "ref_code (ustr ''#x110000'') = Some 0x110000"
    by code_simp+
  ultimately show ?thesis by simp
qed

definition numeric_state :: state where
  "numeric_state = steps [] 4 (init (ustr ''<a a='' @ [39] @ ustr ''b&#38;c'' @ [39] @ ustr ''>d&#x26;e</a>''))"

theorem numeric_reference_witness:
  "running numeric_state
   \<and> drop (pos numeric_state) (src numeric_state)
       = u CHR ''&'' # u CHR ''#'' # ustr ''38'' @ u CHR '';'' # ustr ''c'' @ [39] @ ustr ''>d&#x26;e</a>''
   \<and> mode numeric_state = Literal \<and> lit numeric_state = Some SQ_ATTR
   \<and> end_delim numeric_state = Some [39]
   \<and> step [] numeric_state
       = numeric_state\<lparr>pos := pos numeric_state + 5, text_buf := ustr ''b&''\<rparr>"
proof -
  have h1: "running numeric_state" by code_simp
  have h2: "drop (pos numeric_state) (src numeric_state)
       = u CHR ''&'' # u CHR ''#'' # ustr ''38'' @ u CHR '';'' # ustr ''c'' @ [39] @ ustr ''>d&#x26;e</a>''"
    by code_simp
  have h3: "list_all (\<lambda>x. x \<noteq> u CHR '';'') (ustr ''38'')" by (simp add: ustr_def u_def)
  have m: "mode numeric_state = Literal" "lit numeric_state = Some SQ_ATTR"
    "end_delim numeric_state = Some [39]" by code_simp+
  then have h4: "mode numeric_state = Primary
         \<or> mode numeric_state = Literal \<and> lit numeric_state \<noteq> None" by simp
  have c: "ref_code [35, 51, 56] = Some 38" by code_simp
  have b: "text_buf numeric_state = ustr ''b''" by code_simp
  from numeric_reference[OF numeric_state_def h1 h2 h3 h4]
  have "step [] numeric_state
       = numeric_state\<lparr>pos := pos numeric_state + 5, text_buf := ustr ''b&''\<rparr>"
    by (simp add: c b ustr_def u_def fromCodePoint_def)
  with h1 h2 m show ?thesis by simp
qed

text \<open>
  The Unicode scalar values: the code points that are not surrogates.
\<close>

definition scalar_value :: "int \<Rightarrow> bool" where
  "scalar_value c \<longleftrightarrow> (0 \<le> c \<and> c < 0xD800) \<or> (0xDFFF < c \<and> c < 0x110000)"

text \<open>
  \<open>&#xD800;\<close> is a surrogate, not a scalar value; the reader appends it to the text and
  goes on: the text hook gets it, and \<open>ctag\<close> follows.
\<close>

theorem surrogate_reference:
  "ref_code (ustr ''#xD800'') = Some 0xD800 \<and> \<not> scalar_value 0xD800
   \<and> hooks [] (ustr ''<a>&#xD800;</a>'')
       = Some [Head [], Otag (ustr ''a'') [], Text [0xD800], Ctag (ustr ''a'')]"
  by code_simp

lemma truncated_example:
  "hooks [] (ustr ''<a>x&#x110000;y</a><b/>'') = Some [Head [], Otag (ustr ''a'') []]"
  by code_simp

section \<open>The literal loop in expansion mode\<close>

lemma RX_ATTR_text:
  assumes "s \<noteq> []" "hd s \<noteq> u CHR ''&''"
  shows "m RX_ATTR s Some \<noteq> None"
proof -
  from assms obtain x xs where s: "s = x # xs" "x \<noteq> u CHR ''&''" by (cases s) auto
  let ?t = "takeWhile (\<lambda>x. x \<notin> set (ustr ''&'')) xs"
  let ?r = "dropWhile (\<lambda>x. x \<notin> set (ustr ''&'')) xs"
  have "list_all (\<lambda>x. x \<notin> set (ustr ''&'')) ?t"
    by (auto simp: list_all_iff dest: set_takeWhileD)
  moreover have "?r = [] \<or> hd ?r \<in> set (ustr ''&'')"
    using hd_dropWhile[of "\<lambda>x. x \<notin> set (ustr ''&'')" xs] by auto
  ultimately have "m (Star (NCls (ustr ''&''))) (?t @ ?r) Some = Some ?r"
    by (subst star_ncls_then) simp_all
  then have "m (Star (NCls (ustr ''&''))) xs Some = Some ?r" by simp
  then show ?thesis
    using s(2) by (simp add: s(1) RX_ATTR_def Plus_def ustr_Cons ustr_Nil del: m.simps(8,9))
qed

lemma exec_None_RX_ATTR:
  assumes "exec RX_ATTR s i = None"
  shows "drop i s = [] \<or> hd (drop i s) = u CHR ''&''"
  using assms RX_ATTR_text[of "drop i s"]
  by (auto simp: exec_def split: option.splits)

text \<open>
  C9, as the code has it. In every state the read passes through, when the literal loop
  runs with the grammar \<open>RX_ATTR\<close> and the empty string as closing delimiter: a token
  that matches is not empty, so it is not the delimiter, and the iteration expands a
  reference or appends the token to the text; the attributes and the mode stay as they are.
  When nothing matches, the cursor is at the end of the replacement or at an \<open>&\<close> that
  starts no reference, the frame stack is not empty, and the frame is popped.
\<close>

theorem expansion_mode_literal:
  assumes "s = steps defs n (init doc)"
    and "mode s = Literal" and "lit s = Some RX_ATTR" and "end_delim s = Some []"
  shows "case exec RX_ATTR (src s) (pos s) of
           Some e \<Rightarrow>
             slice (src s) (pos s) e \<noteq> []
             \<and> step defs s =
                 (if at (slice (src s) (pos s) e) 0 = Some (u CHR ''&'')
                  then expand defs (slice_end (slice (src s) (pos s) e) 1 1) (s\<lparr>pos := e\<rparr>)
                  else s\<lparr>pos := e, text_buf := text_buf s @ slice (src s) (pos s) e\<rparr>)
             \<and> mode (step defs s) = Literal \<and> attrs (step defs s) = attrs s
         | None \<Rightarrow>
             (drop (pos s) (src s) = [] \<or> hd (drop (pos s) (src s)) = u CHR ''&'')
             \<and> stack s \<noteq> [] \<and> step defs s = back_frame s"
proof (cases "exec RX_ATTR (src s) (pos s)")
  case None
  from inv_reachable[of defs n doc] assms(1,4) have "stack s \<noteq> []"
    by (auto simp: inv_def split: list.splits)
  then show ?thesis
    using None exec_None_RX_ATTR[OF None] assms(2,3)
    by (simp add: step_def literal_step_def)
next
  case (Some e)
  let ?tok = "slice (src s) (pos s) e"
  from exec_bounds[OF Some] have e: "pos s < e" "e \<le> length (src s)"
    by (simp_all add: minlen_lexers)
  then have ne: "?tok \<noteq> []" by (simp add: slice_def)
  have st: "step defs s =
                 (if at ?tok 0 = Some (u CHR ''&'')
                  then expand defs (slice_end ?tok 1 1) (s\<lparr>pos := e\<rparr>)
                  else s\<lparr>pos := e, text_buf := text_buf s @ ?tok\<rparr>)"
    using ne assms(2,3,4) Some by (simp add: step_def literal_step_def literal_token_def)
  have "mode (expand defs r t) = mode t" "attrs (expand defs r t) = attrs t" for r t
    by (simp_all add: expand_def Let_def split: option.splits)
  then have "mode (step defs s) = Literal \<and> attrs (step defs s) = attrs s"
    using assms(2) by (simp add: st)
  with ne st Some show ?thesis by simp
qed

definition cut_defs :: "(ustring \<times> ustring) list" where
  "cut_defs = [(ustr ''e'', ustr ''x&y'')]"

definition cut_doc :: ustring where
  \<open>cut_doc = ustr ''<a b="1&e;2"/>''\<close>

definition cut_state :: state where
  "cut_state = steps cut_defs 6 (init cut_doc)"

text \<open>
  With \<open>e = x&y\<close>, the attribute value \<open>1&e;2\<close> comes out as \<open>1x2\<close>: in expansion
  mode the frame of \<open>e\<close> is popped at the \<open>&\<close>, with \<open>&y\<close> of the replacement unread.
\<close>

theorem frame_popped_before_exhaustion:
  "mode cut_state = Literal \<and> lit cut_state = Some RX_ATTR \<and> end_delim cut_state = Some []
   \<and> drop (pos cut_state) (src cut_state) = ustr ''&y''
   \<and> length (stack cut_state) = 1 \<and> stack (step cut_defs cut_state) = []
   \<and> hooks cut_defs cut_doc
       = Some [Head [], Otag (ustr ''a'') [(ustr ''b'', ustr ''1x2'')], Ctag (ustr ''a'')]"
  by code_simp

definition in_expansion_state :: state where
  "in_expansion_state = steps cut_defs 5 (init cut_doc)"

theorem expansion_mode_literal_witness:
  "mode in_expansion_state = Literal \<and> lit in_expansion_state = Some RX_ATTR
   \<and> end_delim in_expansion_state = Some []
   \<and> exec RX_ATTR (src in_expansion_state) (pos in_expansion_state) = Some 1
   \<and> step cut_defs in_expansion_state
       = in_expansion_state\<lparr>pos := 1, text_buf := ustr ''1x''\<rparr>
   \<and> mode (step cut_defs in_expansion_state) = Literal
   \<and> attrs (step cut_defs in_expansion_state) = attrs in_expansion_state"
proof -
  have h: "mode in_expansion_state = Literal" "lit in_expansion_state = Some RX_ATTR"
    "end_delim in_expansion_state = Some []" by code_simp+
  have e: "exec RX_ATTR (src in_expansion_state) (pos in_expansion_state) = Some 1"
    by code_simp
  have v: "slice (src in_expansion_state) (pos in_expansion_state) (Suc 0) = [120]"
    "text_buf in_expansion_state = [49]" by code_simp+
  from expansion_mode_literal[OF in_expansion_state_def h] h e show ?thesis
    by (simp add: v at_def u_def ustr_def)
qed

section \<open>Runs of text\<close>

text \<open>
  The tokens of the top-level loop that call no hook: a run of plain text, a CDATA section,
  a comment, a processing instruction, each with what stands between its delimiters.
\<close>

datatype item = Chars ustring | CDSect ustring | Comment ustring | PInstr ustring

fun render_item :: "item \<Rightarrow> ustring" where
  "render_item (Chars t) = t"
| "render_item (CDSect c) = ustr ''<![CDATA['' @ c @ ustr '']]>''"
| "render_item (Comment c) = ustr ''<!--'' @ c @ ustr ''-->''"
| "render_item (PInstr c) = ustr ''<?'' @ c @ ustr ''?>''"

text \<open>What a token adds to the text: plain text and the inside of a CDATA section.\<close>

fun item_text :: "item \<Rightarrow> ustring" where
  "item_text (Chars t) = t"
| "item_text (CDSect c) = c"
| "item_text (Comment c) = []"
| "item_text (PInstr c) = []"

text \<open>
  A token as it is meant to be read: plain text is not empty and has no \<open><\<close> and no
  \<open>&\<close>; the closing delimiter of a section, comment or instruction does not occur before
  its end (for a comment, counted from behind \<open><!-\<close>, where the reader starts to look).
\<close>

fun item_ok :: "item \<Rightarrow> bool" where
  "item_ok (Chars t) = (t \<noteq> [] \<and> list_all (\<lambda>x. x \<notin> set (ustr ''<&'')) t)"
| "item_ok (CDSect c) = (\<not> occurs (ustr '']]>'') (ustr ''CDATA['' @ c @ ustr '']]''))"
| "item_ok (Comment c) = (\<not> occurs (ustr ''-->'') (ustr ''-'' @ c @ ustr ''--''))"
| "item_ok (PInstr c) = (\<not> occurs (ustr ''?>'') (c @ ustr ''?''))"

fun is_chars :: "item \<Rightarrow> bool" where
  "is_chars (Chars t) = True"
| "is_chars i = False"

text \<open>A run of tokens: plain text is one token up to the next markup.\<close>

fun run_ok :: "item list \<Rightarrow> bool" where
  "run_ok [] = True"
| "run_ok [i] = item_ok i"
| "run_ok (i # j # items) =
     (item_ok i \<and> \<not> (is_chars i \<and> is_chars j) \<and> run_ok (j # items))"

definition render_run :: "item list \<Rightarrow> ustring" where
  "render_run items = concat (map render_item items)"

definition run_text :: "item list \<Rightarrow> ustring" where
  "run_text items = concat (map item_text items)"

lemma slice_end_cdata:
  assumes "length p = 9" "length q = 3"
  shows "slice_end (p @ c @ q) 9 3 = c"
  using assms by (simp add: slice_end_def)

lemma quiet_step:
  assumes "mode s = Primary"
    and "drop (pos s) (src s) = render_item i @ rest"
    and "item_ok i"
    and "is_chars i \<longrightarrow> rest = [] \<or> hd rest \<in> set (ustr ''<&'')"
  shows "step defs s = s\<lparr>pos := pos s + length (render_item i),
                         text_buf := text_buf s @ item_text i\<rparr>"
proof -
  let ?tok = "render_item i"
  have ne: "?tok \<noteq> []" using assms(3) by (cases i) (simp_all add: ustr_Cons)
  have mm: "m PRIMARY (?tok @ rest) Some = Some rest"
  proof (cases i)
    case (Chars t)
    then show ?thesis using assms(3,4) PRIMARY_text[of t rest] by simp
  next
    case (CDSect c)
    then show ?thesis
      using assms(3) PRIMARY_section[of "ustr ''CDATA['' @ c" rest]
      by (simp add: ustr_Cons ustr_Nil)
  next
    case (Comment c)
    then show ?thesis
      using assms(3) PRIMARY_comment[of "ustr ''-'' @ c" rest]
      by (simp add: ustr_Cons ustr_Nil)
  next
    case (PInstr c)
    then show ?thesis
      using assms(3) PRIMARY_pi[of c rest]
      by (simp add: ustr_Cons ustr_Nil)
  qed
  have e: "exec PRIMARY (src s) (pos s) = Some (pos s + length ?tok)"
    and t: "slice (src s) (pos s) (pos s + length ?tok) = ?tok"
    using exec_match[OF assms(2) ne mm] by simp_all
  have ps: "primary_step defs s = primary_token defs ?tok (s\<lparr>pos := pos s + length ?tok\<rparr>)"
    by (simp only: primary_step_def e t option.case)
  have "primary_token defs ?tok s' = s'\<lparr>text_buf := text_buf s' @ item_text i\<rparr>" for s'
  proof (cases i)
    case (Chars t)
    with assms(3) obtain x t' where "t = x # t'" "x \<noteq> u CHR ''<''" "x \<noteq> u CHR ''&''"
      by (cases t) (auto simp: ustr_Cons ustr_Nil)
    with Chars show ?thesis by (simp add: primary_token_def at_def)
  next
    case (CDSect c)
    have "slice_end (ustr ''<![CDATA['' @ c @ ustr '']]>'') 9 3 = c"
      by (rule slice_end_cdata) (simp_all add: ustr_def)
    with CDSect show ?thesis
      by (simp add: primary_token_def at_def ustr_Cons ustr_Nil u_def)
  next
    case (Comment c)
    then show ?thesis by (simp add: primary_token_def at_def ustr_Cons ustr_Nil u_def)
  next
    case (PInstr c)
    then show ?thesis by (simp add: primary_token_def at_def ustr_Cons ustr_Nil u_def)
  qed
  then show ?thesis
    unfolding step_def assms(1) mode.case ps by simp
qed

lemma steps_Suc_running: "running s \<Longrightarrow> steps defs (Suc n) s = steps defs n (step defs s)"
  by simp

lemma steps_stopped: "\<not> running s \<Longrightarrow> steps defs n s = s"
  by (cases n) simp_all

lemma steps_add: "steps defs (a + b) s = steps defs b (steps defs a s)"
  by (induction a arbitrary: s) (simp_all add: steps_stopped)

lemma render_item_starts:
  "\<not> is_chars j \<Longrightarrow> hd (render_item j @ r) = u CHR ''<''"
  by (cases j) (simp_all add: ustr_Cons)

lemma run_steps:
  assumes "running s" "mode s = Primary" "run_ok items"
    and "drop (pos s) (src s) = render_run items @ rest"
    and "rest = [] \<or> hd rest \<in> set (ustr ''<&'')"
  shows "steps defs (length items) s =
           s\<lparr>pos := pos s + length (render_run items),
              text_buf := text_buf s @ run_text items\<rparr>"
  using assms(1,2,3,4)
proof (induction items arbitrary: s)
  case Nil
  then show ?case by (simp add: render_run_def run_text_def)
next
  case (Cons i items)
  let ?rest = "render_run items @ rest"
  let ?s1 = "s\<lparr>pos := pos s + length (render_item i), text_buf := text_buf s @ item_text i\<rparr>"
  have d: "drop (pos s) (src s) = render_item i @ ?rest"
    using Cons.prems(4) by (simp add: render_run_def)
  have ok: "item_ok i" "run_ok items"
    using Cons.prems(3) by (cases items; simp)+
  have nx: "is_chars i \<longrightarrow> ?rest = [] \<or> hd ?rest \<in> set (ustr ''<&'')"
  proof (cases items)
    case Nil
    with assms(5) show ?thesis by (simp add: render_run_def)
  next
    case (Cons j items')
    show ?thesis
    proof
      assume "is_chars i"
      with Cons.prems(3) Cons have "\<not> is_chars j" by simp
      from render_item_starts[OF this, of "render_run items' @ rest"] Cons
      show "?rest = [] \<or> hd ?rest \<in> set (ustr ''<&'')"
        by (simp add: render_run_def ustr_Cons)
    qed
  qed
  have st: "step defs s = ?s1" by (rule quiet_step[OF Cons.prems(2) d ok(1) nx])
  have "drop (pos ?s1) (src ?s1) = ?rest" using drop_drop_eq[OF d] by simp
  moreover have "running ?s1" "mode ?s1 = Primary"
    using Cons.prems(1,2) by (simp_all add: running_def)
  ultimately have "steps defs (length items) ?s1 =
      ?s1\<lparr>pos := pos ?s1 + length (render_run items),
           text_buf := text_buf ?s1 @ run_text items\<rparr>"
    using ok(2) by (intro Cons.IH) simp_all
  then show ?case
    using Cons.prems(1) by (simp add: st render_run_def run_text_def add.assoc)
qed

lemma otag_step:
  assumes "mode s = Primary"
    and "drop (pos s) (src s) = u CHR ''<'' # name @ rest"
    and "name \<noteq> []"
    and "list_all (\<lambda>x. x \<notin> set name_stop) name"
    and "hd name \<noteq> u CHR ''!''" "hd name \<noteq> u CHR ''?''"
    and "rest = [] \<or> hd rest \<in> set name_stop"
  shows "step defs s =
     s\<lparr>pos := pos s + 1 + length name,
       text_buf := [],
       trace := trace s @ (if text_buf s \<noteq> [] then [Text (text_buf s)] else []),
       tag := name, attrs := [], mode := Attlist\<rparr>"
proof -
  let ?tok = "u CHR ''<'' # name"
  have d: "drop (pos s) (src s) = ?tok @ rest" using assms(2) by simp
  have mm: "m PRIMARY (?tok @ rest) Some = Some rest"
    using PRIMARY_otag[OF assms(3,4,5,6,7)] by simp
  have e: "exec PRIMARY (src s) (pos s) = Some (pos s + length ?tok)"
    and t: "slice (src s) (pos s) (pos s + length ?tok) = ?tok"
    using exec_match[OF d _ mm] by simp_all
  from assms(3,4) obtain x n' where n: "name = x # n'" "x \<noteq> u CHR ''/''"
    by (cases name) (auto simp: name_stop_def ustr_Cons)
  have a0: "at ?tok 0 = Some (u CHR ''<'')" and a1: "at ?tok 1 = Some (hd name)"
    using assms(3) by (simp_all add: at_def n)
  have ps: "primary_step defs s = primary_token defs ?tok (s\<lparr>pos := pos s + length ?tok\<rparr>)"
    by (simp only: primary_step_def e t option.case)
  show ?thesis
    unfolding step_def assms(1) mode.case ps primary_token_def a0 a1
    using assms(5,6) n by (simp add: flush_def)
qed

subsection \<open>The text hook in every trace\<close>

fun is_text :: "hook \<Rightarrow> bool" where
  "is_text (Text t) = True"
| "is_text h = False"

text \<open>No two calls of the text hook follow each other.\<close>

fun no_double_text :: "hook list \<Rightarrow> bool" where
  "no_double_text (Text a # Text b # hs) = False"
| "no_double_text (h # hs) = no_double_text hs"
| "no_double_text [] = True"

lemma ndt_Cons:
  "no_double_text (h # hs) \<longleftrightarrow>
     no_double_text hs \<and> \<not> (is_text h \<and> hs \<noteq> [] \<and> is_text (hd hs))"
proof (cases hs)
  case Nil
  then show ?thesis by (cases h) simp_all
next
  case (Cons g gs)
  then show ?thesis by (cases h; cases g) simp_all
qed

lemma ndt_append:
  "no_double_text (xs @ ys) \<longleftrightarrow>
     no_double_text xs \<and> no_double_text ys
     \<and> \<not> (xs \<noteq> [] \<and> ys \<noteq> [] \<and> is_text (last xs) \<and> is_text (hd ys))"
proof (induction xs)
  case Nil
  then show ?case by simp
next
  case (Cons x xs)
  show ?case
    unfolding append_Cons ndt_Cons[of x] Cons.IH
    by (cases xs) auto
qed

lemma ndt_snoc_other:
  "no_double_text hs \<Longrightarrow> \<not> is_text h \<Longrightarrow> no_double_text (hs @ [h])"
  by (cases h) (simp_all add: ndt_append)

lemma ndt_snoc_text:
  "no_double_text hs \<Longrightarrow> hs \<noteq> [] \<Longrightarrow> \<not> is_text (last hs) \<Longrightarrow> no_double_text (hs @ [Text t])"
  by (simp add: ndt_append)

definition flushed :: "state \<Rightarrow> hook list" where
  "flushed s = (if text_buf s \<noteq> [] then [Text (text_buf s)] else [])"

definition tinv :: "state \<Rightarrow> bool" where
  "tinv s \<longleftrightarrow>
     list_all (\<lambda>h. h \<noteq> Text []) (trace s) \<and> no_double_text (trace s)
     \<and> (running s \<and> mode s = Primary \<longrightarrow> trace s \<noteq> [] \<and> \<not> is_text (last (trace s)))"

lemma expand_trace [simp]:
  "trace (expand defs r s) = trace s" "mode (expand defs r s) = mode s"
  by (simp_all add: expand_def Let_def split: option.splits)

lemma back_frame_trace [simp]:
  "trace (back_frame s) = trace s" "mode (back_frame s) = mode s"
  by (simp_all add: back_frame_def Let_def split: list.splits prod.splits)

lemma tinv_same:
  "tinv s \<Longrightarrow> running s \<Longrightarrow> trace s' = trace s \<Longrightarrow> mode s' = mode s \<Longrightarrow> tinv s'"
  by (auto simp: tinv_def)

lemma tinv_flushed:
  assumes "tinv s" "running s" "mode s = Primary"
  shows "list_all (\<lambda>h. h \<noteq> Text []) (trace s @ flushed s)"
    and "no_double_text (trace s @ flushed s)"
  using assms by (auto simp: tinv_def flushed_def intro: ndt_snoc_text)

lemma primary_token_tinv:
  assumes "tinv s" "running s" "mode s = Primary"
    and "trace s0 = trace s" "mode s0 = mode s" "text_buf s0 = text_buf s"
  shows "tinv (primary_token defs tok s0)"
proof -
  have f: "trace (flush s0) = trace s @ flushed s" "mode (flush s0) = Primary"
    using assms by (simp_all add: flush_def flushed_def)
  note fl = tinv_flushed[OF assms(1,2,3)]
  have 1: "tinv (case indexOf (src (flush s0)) (u CHR ''>'') (pos (flush s0)) of
                 None \<Rightarrow> (flush s0)\<lparr>active := False\<rparr>
               | Some e \<Rightarrow> (flush s0)\<lparr>trace := trace (flush s0) @ [Ctag (drop 2 tok)], pos := e + 1\<rparr>)"
    using fl f ndt_snoc_other[OF fl(2), of "Ctag (drop 2 tok)"]
    by (auto simp: tinv_def running_def split: option.splits)
  have 2: "tinv ((flush s0)\<lparr>tag := drop 1 tok, attrs := [], mode := Attlist\<rparr>)"
    using fl f by (simp add: tinv_def)
  have 3: "tinv (s0\<lparr>text_buf := x\<rparr>)" "tinv s0" "tinv (expand defs r s0)" for x r
    using assms by (auto intro: tinv_same[OF assms(1,2)])
  show ?thesis
    unfolding primary_token_def Let_def using 1 2 3 by presburger
qed

lemma tinv_step:
  assumes "tinv s" "running s"
  shows "tinv (step defs s)"
proof (cases "mode s")
  case Primary
  show ?thesis
  proof (cases "exec PRIMARY (src s) (pos s)")
    case None
    then show ?thesis
      using assms Primary
      by (auto simp: step_def primary_step_def tinv_def running_def)
  next
    case (Some e)
    have "tinv (primary_token defs tok (s\<lparr>pos := e\<rparr>))" for tok
      by (rule primary_token_tinv[OF assms Primary]) simp_all
    then show ?thesis using Some Primary by (simp add: step_def primary_step_def)
  qed
next
  case Attlist
  show ?thesis
  proof (cases "exec ATTLIST (src s) (pos s)")
    case None
    then show ?thesis
      using assms Attlist by (auto simp: step_def attlist_step_def tinv_def running_def)
  next
    case (Some e)
    have "tinv (attlist_token tok (s\<lparr>pos := e\<rparr>))" for tok
      using assms Attlist
      by (auto simp: attlist_token_def tinv_def running_def ndt_append)
    then show ?thesis using Some Attlist by (simp add: step_def attlist_step_def)
  qed
next
  case Literal
  have "tinv s'" if "trace s' = trace s" "mode s' \<noteq> Primary" for s'
    using assms that by (auto simp: tinv_def)
  moreover have "trace (literal_step defs s) = trace s" "mode (literal_step defs s) \<noteq> Primary"
    using Literal
    by (auto simp: literal_step_def literal_token_def split: option.splits)
  ultimately show ?thesis using Literal by (simp add: step_def)
qed

lemma tinv_init: "tinv (init doc)"
  by (simp add: tinv_def init_def Let_def)

lemma tinv_steps: "tinv s \<Longrightarrow> tinv (steps defs n s)"
  by (induction n arbitrary: s) (simp_all add: tinv_step)

text \<open>
  C5, as the code has it. In the top-level loop, a run of plain-text, CDATA, comment and
  processing-instruction tokens calls no hook; when the run ends at a tag head (\<open><name\<close>
  or \<open></name\<close>), the text hook is called exactly once, before any hook of the tag, with
  what the buffer held before the run followed by the plain text and the insides of the
  CDATA sections of the run, in order, and it is called only if that text is not empty;
  the buffer is then empty. (A run that ends with the source is not delivered.) In every
  trace of the reader, on every document, no text hook call has the empty string and no
  two text hook calls follow each other.
\<close>

theorem merged_text:
  assumes "running s" and "mode s = Primary"
    and "run_ok items"
    and "drop (pos s) (src s) =
           render_run items @ u CHR ''<'' # (if closing then [u CHR ''/''] else []) @ name @ rest"
    and "name \<noteq> []" and "list_all (\<lambda>x. x \<notin> set name_stop) name"
    and "closing \<or> hd name \<noteq> u CHR ''!'' \<and> hd name \<noteq> u CHR ''?''"
    and "rest = [] \<or> hd rest \<in> set name_stop"
  shows "trace (steps defs (length items) s) = trace s
       \<and> trace (steps defs (Suc (length items)) s) =
           trace s
           @ (if text_buf s @ run_text items \<noteq> [] then [Text (text_buf s @ run_text items)]
              else [])
           @ (if closing \<and> u CHR ''>'' \<in> set rest then [Ctag name] else [])
       \<and> text_buf (steps defs (Suc (length items)) s) = []
       \<and> list_all (\<lambda>h. h \<noteq> Text []) (trace (steps defs n (init doc)))
       \<and> no_double_text (trace (steps defs n (init doc)))"
proof -
  let ?b = "u CHR ''<'' # (if closing then [u CHR ''/''] else []) @ name @ rest"
  let ?s1 = "s\<lparr>pos := pos s + length (render_run items),
                text_buf := text_buf s @ run_text items\<rparr>"
  have run: "steps defs (length items) s = ?s1"
    by (rule run_steps[OF assms(1,2,3,4)]) (simp add: ustr_Cons)
  have r1: "running ?s1" "mode ?s1 = Primary"
    using assms(1,2) by (simp_all add: running_def)
  have d1: "drop (pos ?s1) (src ?s1) = ?b" using drop_drop_eq[OF assms(4)] by simp
  have "steps defs (Suc (length items)) s = steps defs 1 (steps defs (length items) s)"
    using steps_add[of defs "length items" 1 s] by simp
  then have nxt: "steps defs (Suc (length items)) s = step defs ?s1"
    using r1(1) by (simp add: run)
  have "trace (step defs ?s1) =
           trace s
           @ (if text_buf s @ run_text items \<noteq> [] then [Text (text_buf s @ run_text items)]
              else [])
           @ (if closing \<and> u CHR ''>'' \<in> set rest then [Ctag name] else [])
        \<and> text_buf (step defs ?s1) = []"
  proof (cases closing)
    case True
    then have "drop (pos ?s1) (src ?s1) = u CHR ''<'' # u CHR ''/'' # name @ rest"
      using d1 by simp
    from ctag_step[OF r1(2) this assms(5,6,8), of defs] True show ?thesis by simp
  next
    case False
    then have "drop (pos ?s1) (src ?s1) = u CHR ''<'' # name @ rest"
      using d1 by simp
    from otag_step[OF r1(2) this assms(5,6) _ _ assms(8), of defs] False assms(7)
    show ?thesis by simp
  qed
  then have B: "trace (steps defs (Suc (length items)) s) =
           trace s
           @ (if text_buf s @ run_text items \<noteq> [] then [Text (text_buf s @ run_text items)]
              else [])
           @ (if closing \<and> u CHR ''>'' \<in> set rest then [Ctag name] else [])"
    and C: "text_buf (steps defs (Suc (length items)) s) = []"
    unfolding nxt by blast+
  have A: "trace (steps defs (length items) s) = trace s" unfolding run by simp
  have "tinv (steps defs n (init doc))" by (rule tinv_steps[OF tinv_init])
  then have D: "list_all (\<lambda>h. h \<noteq> Text []) (trace (steps defs n (init doc)))"
    and E: "no_double_text (trace (steps defs n (init doc)))"
    unfolding tinv_def by blast+
  from A B C D E show ?thesis by blast
qed

definition merged_doc :: ustring where
  "merged_doc = ustr ''<a>b<!--x-->c<?y?>d<![CDATA[e]]>f</a>''"

definition merged_state :: state where
  "merged_state = steps [] 2 (init merged_doc)"

definition merged_items :: "item list" where
  "merged_items = [Chars (ustr ''b''), Comment (ustr ''x''), Chars (ustr ''c''),
                   PInstr (ustr ''y''), Chars (ustr ''d''), CDSect (ustr ''e''),
                   Chars (ustr ''f'')]"

theorem merged_text_witness:
  "running merged_state \<and> mode merged_state = Primary \<and> run_ok merged_items
   \<and> drop (pos merged_state) (src merged_state)
       = render_run merged_items @ u CHR ''<'' # [u CHR ''/''] @ ustr ''a'' @ ustr ''>''
   \<and> trace merged_state = [Head [], Otag (ustr ''a'') []]
   \<and> trace (steps [] 8 merged_state)
       = [Head [], Otag (ustr ''a'') [], Text (ustr ''bcdef''), Ctag (ustr ''a'')]"
proof -
  have h1: "running merged_state" and h2: "mode merged_state = Primary"
    and h3: "run_ok merged_items" by code_simp+
  have h4: "drop (pos merged_state) (src merged_state)
       = render_run merged_items
         @ u CHR ''<'' # (if True then [u CHR ''/''] else []) @ ustr ''a'' @ ustr ''>''"
    by code_simp
  have h5: "ustr ''a'' \<noteq> []" "list_all (\<lambda>x. x \<notin> set name_stop) (ustr ''a'')"
    "ustr ''>'' = [] \<or> hd (ustr ''>'') \<in> set name_stop"
    by (simp_all add: ustr_def u_def name_stop_def)
  have v: "trace merged_state = [Head [], Otag (ustr ''a'') []]"
    "text_buf merged_state = []" "run_text merged_items = ustr ''bcdef''"
    "length merged_items = 7" by code_simp+
  from merged_text[OF h1 h2 h3 h4 h5(1,2) _ h5(3), of "[]"]
  have "trace (steps [] 8 merged_state)
       = [Head [], Otag (ustr ''a'') [], Text (ustr ''bcdef''), Ctag (ustr ''a'')]"
    by (simp add: v ustr_def u_def)
  with h1 h2 h3 h4 v(1) show ?thesis by simp
qed

text \<open>
  The text after the last tag is a run that is never delivered: no text hook is called
  for the \<open>x\<close> of \<open><a></a>x\<close>.
\<close>

theorem trailing_text_dropped:
  "run_ok [Chars (ustr ''x'')] \<and> run_text [Chars (ustr ''x'')] = ustr ''x''
   \<and> hooks [] (ustr ''<a></a>'' @ render_run [Chars (ustr ''x'')])
       = Some [Head [], Otag (ustr ''a'') [], Ctag (ustr ''a'')]"
  by code_simp

section \<open>Attribute lists\<close>

definition white :: "int list" where
  "white = ustr '' '' @ [9, 13, 10]"

lemma ATTLIST_space:
  assumes "w \<noteq> []" "list_all (\<lambda>x. x \<in> set white) w" "rest = [] \<or> hd rest \<notin> set white"
  shows "m ATTLIST (w @ rest) Some = Some rest"
proof -
  from assms(1) obtain x w' where w: "w = x # w'" by (cases w) auto
  with assms(2) have x: "x \<in> set white" and w': "list_all (\<lambda>x. x \<in> set white) w'"
    by simp_all
  have "m (Star (Cls white)) (w' @ rest) Some = Some rest"
    by (subst star_cls_then[OF w' assms(3)]) simp_all
  then show ?thesis
    using x
    by (auto simp add: w ATTLIST_def Plus_def Opt_def ustr_Cons ustr_Nil white_def u_def
        simp del: m.simps(8,9))
qed

lemma ATTLIST_head:
  assumes "k \<noteq> []" "list_all (\<lambda>x. x \<noteq> u CHR ''='') k" "hd k \<notin> set name_stop"
    "q = 34 \<or> q = 39"
  shows "m ATTLIST (k @ u CHR ''='' # q # rest) Some = Some rest"
proof -
  from assms(1) obtain x k' where k: "k = x # k'" by (cases k) auto
  with assms(2,3) have x: "x \<noteq> u CHR ''=''" "x \<notin> set name_stop"
    and k': "list_all (\<lambda>x. x \<notin> set (ustr ''='')) k'"
    by (simp_all add: ustr_Cons ustr_Nil)
  have "m (Star (NCls (ustr ''=''))) (k' @ u CHR ''='' # q # rest)
          (\<lambda>s. m (Seq (Chr (u CHR ''='')) (Cls [34, 39])) s Some) = Some rest"
    using assms(4) by (subst star_ncls_then[OF k']) (auto simp: ustr_Cons ustr_Nil)
  then show ?thesis
    using x
    by (auto simp add: k ATTLIST_def Plus_def Opt_def ustr_Cons ustr_Nil name_stop_def u_def
        simp del: m.simps(8,9))
qed

lemma ATTLIST_end:
  "m ATTLIST (u CHR ''>'' # rest) Some = Some rest"
  "m ATTLIST (u CHR ''/'' # u CHR ''>'' # rest) Some = Some rest"
  by (simp_all add: ATTLIST_def Opt_def u_def)

text \<open>The grammar of a literal with the delimiter \<open>q\<close>.\<close>

definition Q_ATTR :: "int \<Rightarrow> rx" where
  "Q_ATTR q = alts
     [seqs [Chr (u CHR ''&''), Plus (NCls (ustr '';'')), Chr (u CHR '';'')],
      Chr q,
      Plus (NCls [q, u CHR ''&''])]"

lemma Q_ATTR_eq: "DQ_ATTR = Q_ATTR 34" "SQ_ATTR = Q_ATTR 39"
  by (simp_all add: DQ_ATTR_def SQ_ATTR_def Q_ATTR_def)

lemma Q_ATTR_text:
  assumes "v \<noteq> []" "list_all (\<lambda>x. x \<noteq> q \<and> x \<noteq> u CHR ''&'') v" "q \<noteq> u CHR ''&''"
  shows "m (Q_ATTR q) (v @ q # rest) Some = Some (q # rest)"
proof -
  from assms(1) obtain x v' where v: "v = x # v'" by (cases v) auto
  with assms(2) have x: "x \<noteq> q" "x \<noteq> u CHR ''&''"
    and v': "list_all (\<lambda>x. x \<notin> set [q, u CHR ''&'']) v'"
    by (simp_all add: list_all_iff)
  have "m (Star (NCls [q, u CHR ''&''])) (v' @ q # rest) Some = Some (q # rest)"
    by (subst star_ncls_then[OF v']) simp_all
  then show ?thesis
    using x by (simp add: v Q_ATTR_def Plus_def del: m.simps(8,9))
qed

lemma Q_ATTR_quote:
  assumes "q \<noteq> u CHR ''&''"
  shows "m (Q_ATTR q) (q # rest) Some = Some rest"
  using assms by (simp add: Q_ATTR_def Plus_def del: m.simps(8,9))

text \<open>
  An attribute as it stands in a tag: the white space before it, its name, the quote
  character and the value between the quotes.
\<close>

datatype attribute = Attribute (a_space: ustring) (a_name: ustring) (a_quote: int) (a_value: ustring)

definition render_attribute :: "attribute \<Rightarrow> ustring" where
  "render_attribute a =
     a_space a @ a_name a @ u CHR ''='' # a_quote a # a_value a @ [a_quote a]"

definition attribute_ok :: "attribute \<Rightarrow> bool" where
  "attribute_ok a \<longleftrightarrow>
     a_space a \<noteq> [] \<and> list_all (\<lambda>x. x \<in> set white) (a_space a)
     \<and> a_name a \<noteq> [] \<and> list_all (\<lambda>x. x \<noteq> u CHR ''='') (a_name a)
     \<and> hd (a_name a) \<notin> set name_stop
     \<and> (a_quote a = 34 \<or> a_quote a = 39)
     \<and> list_all (\<lambda>x. x \<noteq> a_quote a \<and> x \<noteq> u CHR ''&'') (a_value a)"

lemma attlist_exec:
  assumes "mode s = Attlist" "drop (pos s) (src s) = tok @ rest" "tok \<noteq> []"
    "m ATTLIST (tok @ rest) Some = Some rest"
  shows "step defs s = attlist_token tok (s\<lparr>pos := pos s + length tok\<rparr>)"
  using exec_match[OF assms(2,3,4)] assms(1)
  by (simp only: step_def attlist_step_def mode.case option.case)

lemma literal_exec:
  assumes "mode s = Literal" "lit s = Some r" "drop (pos s) (src s) = tok @ rest" "tok \<noteq> []"
    "m r (tok @ rest) Some = Some rest"
  shows "step defs s = literal_token defs tok (s\<lparr>pos := pos s + length tok\<rparr>)"
  using exec_match[OF assms(3,4,5)] assms(1,2)
  by (simp only: step_def literal_step_def mode.case option.case)

lemma white_not_stop: "x \<in> set white \<Longrightarrow> x \<in> set name_stop"
  by (auto simp: white_def name_stop_def ustr_Cons ustr_Nil)

lemma space_step:
  assumes "mode s = Attlist" "drop (pos s) (src s) = w @ rest"
    "w \<noteq> []" "list_all (\<lambda>x. x \<in> set white) w" "rest = [] \<or> hd rest \<notin> set white"
  shows "step defs s = s\<lparr>pos := pos s + length w\<rparr>"
proof -
  have all: "\<And>x. x \<in> set w \<Longrightarrow> x \<in> set white"
    using assms(4) by (simp add: list_all_iff)
  have "hd w \<in> set white" using assms(3) all by simp
  then have 1: "w \<noteq> ustr ''/>''" "w \<noteq> ustr ''>''"
    by (auto simp: white_def ustr_Cons ustr_Nil u_def)
  have 2: "at_end w 2 \<noteq> Some (u CHR ''='')"
  proof (cases "2 \<le> length w")
    case True
    then have "w ! (length w - 2) \<in> set white" by (intro all nth_mem) simp
    then show ?thesis using True by (auto simp: at_end_def white_def ustr_Cons ustr_Nil u_def)
  next
    case False
    then show ?thesis by (simp add: at_end_def)
  qed
  show ?thesis
    unfolding attlist_exec[OF assms(1,2,3) ATTLIST_space[OF assms(3,4,5)]]
    using 1 2 by (simp add: attlist_token_def)
qed

lemma head_step:
  assumes "mode s = Attlist" "drop (pos s) (src s) = k @ u CHR ''='' # q # rest"
    "k \<noteq> []" "list_all (\<lambda>x. x \<noteq> u CHR ''='') k" "hd k \<notin> set name_stop"
    "q = 34 \<or> q = 39"
  shows "step defs s = s\<lparr>pos := pos s + length k + 2, attr := k, end_delim := Some [q],
                         lit := Some (Q_ATTR q), mode := Literal\<rparr>"
proof -
  let ?tok = "k @ [u CHR ''='', q]"
  have d: "drop (pos s) (src s) = ?tok @ rest" using assms(2) by simp
  have mm: "m ATTLIST (?tok @ rest) Some = Some rest"
    using ATTLIST_head[OF assms(3,4,5,6), of rest] by simp
  have 1: "?tok \<noteq> ustr ''/>''" "?tok \<noteq> ustr ''>''"
    using assms(3) by (cases k; cases "tl k"; simp add: ustr_Cons ustr_Nil)+
  have 2: "at_end ?tok 2 = Some (u CHR ''='')" "slice_end ?tok 0 2 = k" "last ?tok = q"
    by (simp_all add: at_end_def slice_end_def nth_append)
  have 3: "(if [q] = [34] then DQ_ATTR else SQ_ATTR) = Q_ATTR q"
    using assms(6) by (auto simp: Q_ATTR_eq)
  show ?thesis
    unfolding attlist_exec[OF assms(1) d _ mm, simplified]
    using 1 by (simp add: attlist_token_def 2[simplified] 3[simplified])
qed

lemma value_step:
  assumes "mode s = Literal" "lit s = Some (Q_ATTR q)" "end_delim s = Some [q]"
    "drop (pos s) (src s) = v @ q # rest"
    "v \<noteq> []" "list_all (\<lambda>x. x \<noteq> q \<and> x \<noteq> u CHR ''&'') v" "q = 34 \<or> q = 39"
  shows "step defs s = s\<lparr>pos := pos s + length v, text_buf := text_buf s @ v\<rparr>"
proof -
  have q: "q \<noteq> u CHR ''&''" using assms(7) by (auto simp: u_def)
  from assms(5,6) obtain x v' where v: "v = x # v'" "x \<noteq> q" "x \<noteq> u CHR ''&''"
    by (cases v) auto
  have 1: "Some v \<noteq> Some [q]" "at v 0 \<noteq> Some (u CHR ''&'')"
    using v by (simp_all add: at_def)
  show ?thesis
    unfolding literal_exec[OF assms(1,2,4,5) Q_ATTR_text[OF assms(5,6) q]]
    using 1 assms(3) by (simp add: literal_token_def)
qed

lemma quote_step:
  assumes "mode s = Literal" "lit s = Some (Q_ATTR q)" "end_delim s = Some [q]"
    "drop (pos s) (src s) = q # rest" "q = 34 \<or> q = 39"
  shows "step defs s = s\<lparr>pos := pos s + 1,
                         attrs := map_set (attr s) (text_buf s) (attrs s),
                         text_buf := [], mode := Attlist\<rparr>"
proof -
  have q: "q \<noteq> u CHR ''&''" using assms(5) by (auto simp: u_def)
  have d: "drop (pos s) (src s) = [q] @ rest" using assms(4) by simp
  have mm: "m (Q_ATTR q) ([q] @ rest) Some = Some rest"
    using Q_ATTR_quote[OF q, of rest] by simp
  show ?thesis
    unfolding literal_exec[OF assms(1,2) d _ mm, simplified]
    using assms(3) by (simp add: literal_token_def)
qed

text \<open>The iterations one attribute takes, and the map after a list of attributes.\<close>

definition attr_steps :: "attribute \<Rightarrow> nat" where
  "attr_steps a = (if a_value a = [] then 3 else 4)"

definition set_all :: "(ustring \<times> ustring) list \<Rightarrow> attribute list \<Rightarrow> (ustring \<times> ustring) list" where
  "set_all mp as = foldl (\<lambda>mp a. map_set (a_name a) (a_value a) mp) mp as"

lemma steps_step:
  "running s \<Longrightarrow> step defs s = s' \<Longrightarrow> steps defs n s' = t \<Longrightarrow> steps defs (Suc n) s = t"
  by simp

lemma attribute_steps:
  assumes "running s" "mode s = Attlist" "text_buf s = []" "attribute_ok a"
    and "drop (pos s) (src s) = render_attribute a @ rest"
  shows "steps defs (attr_steps a) s =
           s\<lparr>pos := pos s + length (render_attribute a),
              attrs := map_set (a_name a) (a_value a) (attrs s),
              attr := a_name a, end_delim := Some [a_quote a],
              lit := Some (Q_ATTR (a_quote a))\<rparr>"
proof -
  obtain w k q v where a: "a = Attribute w k q v" by (cases a)
  from assms(4) a have ok: "w \<noteq> []" "list_all (\<lambda>x. x \<in> set white) w"
    "k \<noteq> []" "list_all (\<lambda>x. x \<noteq> u CHR ''='') k" "hd k \<notin> set name_stop"
    "q = 34 \<or> q = 39" "list_all (\<lambda>x. x \<noteq> q \<and> x \<noteq> u CHR ''&'') v"
    by (simp_all add: attribute_ok_def)
  let ?r1 = "k @ u CHR ''='' # q # v @ q # rest"
  have d0: "drop (pos s) (src s) = w @ ?r1"
    using assms(5) by (simp add: a render_attribute_def)
  have "hd ?r1 \<notin> set white" using ok(3,5) white_not_stop by (cases k) auto
  then have s1: "step defs s = s\<lparr>pos := pos s + length w\<rparr>" (is "_ = ?s1")
    by (intro space_step[OF assms(2) d0 ok(1,2)]) simp
  have d1: "drop (pos ?s1) (src ?s1) = k @ u CHR ''='' # q # (v @ q # rest)"
    using drop_drop_eq[OF d0] by simp
  have s2: "step defs ?s1 = ?s1\<lparr>pos := pos ?s1 + length k + 2, attr := k,
                end_delim := Some [q], lit := Some (Q_ATTR q), mode := Literal\<rparr>" (is "_ = ?s2")
    by (rule head_step[OF _ d1 ok(3,4,5,6)]) (simp add: assms(2))
  have d2: "drop (pos ?s2) (src ?s2) = v @ q # rest"
  proof -
    have "drop (pos ?s1) (src ?s1) = (k @ [u CHR ''='', q]) @ (v @ q # rest)" using d1 by simp
    from drop_drop_eq[OF this] show ?thesis by (simp add: add.assoc)
  qed
  have r: "running ?s1" "running ?s2" using assms(1) by (simp_all add: running_def)
  have m2: "mode ?s2 = Literal" "lit ?s2 = Some (Q_ATTR q)" "end_delim ?s2 = Some [q]"
    by simp_all
  show ?thesis
  proof (cases "v = []")
    case True
    have s3: "step defs ?s2 = ?s2\<lparr>pos := pos ?s2 + 1,
                  attrs := map_set (attr ?s2) (text_buf ?s2) (attrs ?s2),
                  text_buf := [], mode := Attlist\<rparr>" (is "_ = ?s3")
      by (rule quote_step[OF m2 _ ok(6)]) (use d2 True in simp)
    have e3: "steps defs (Suc 0) ?s2 = ?s3" by (rule steps_step[OF r(2) s3]) simp
    have e2: "steps defs (Suc (Suc 0)) ?s1 = ?s3" by (rule steps_step[OF r(1) s2 e3])
    have e1: "steps defs (Suc (Suc (Suc 0))) s = ?s3" by (rule steps_step[OF assms(1) s1 e2])
    have n: "attr_steps a = Suc (Suc (Suc 0))" using True by (simp add: a attr_steps_def)
    show ?thesis
      unfolding n e1 using True assms(2,3)
      by (intro state.equality) (simp_all add: a render_attribute_def)
  next
    case False
    have s3: "step defs ?s2 = ?s2\<lparr>pos := pos ?s2 + length v, text_buf := text_buf ?s2 @ v\<rparr>"
      (is "_ = ?s3")
      by (rule value_step[OF m2 d2 False ok(7,6)])
    have d3: "drop (pos ?s3) (src ?s3) = q # rest"
      using drop_drop_eq[OF d2] by simp
    have s4: "step defs ?s3 = ?s3\<lparr>pos := pos ?s3 + 1,
                  attrs := map_set (attr ?s3) (text_buf ?s3) (attrs ?s3),
                  text_buf := [], mode := Attlist\<rparr>" (is "_ = ?s4")
      by (rule quote_step[OF _ _ _ d3 ok(6)]) simp_all
    have r3: "running ?s3" using assms(1) by (simp add: running_def)
    have e4: "steps defs (Suc 0) ?s3 = ?s4" by (rule steps_step[OF r3 s4]) simp
    have e3: "steps defs (Suc (Suc 0)) ?s2 = ?s4" by (rule steps_step[OF r(2) s3 e4])
    have e2: "steps defs (Suc (Suc (Suc 0))) ?s1 = ?s4" by (rule steps_step[OF r(1) s2 e3])
    have e1: "steps defs (Suc (Suc (Suc (Suc 0)))) s = ?s4"
      by (rule steps_step[OF assms(1) s1 e2])
    have n: "attr_steps a = Suc (Suc (Suc (Suc 0)))" using False by (simp add: a attr_steps_def)
    show ?thesis
      unfolding n e1 using False assms(2,3)
      by (intro state.equality) (simp_all add: a render_attribute_def)
  qed
qed

lemma attributes_steps:
  assumes "running s" "mode s = Attlist" "text_buf s = []" "list_all attribute_ok as"
    and "drop (pos s) (src s) = concat (map render_attribute as) @ rest"
  shows "\<exists>k e l. steps defs (sum_list (map attr_steps as)) s =
           s\<lparr>pos := pos s + length (concat (map render_attribute as)),
              attrs := set_all (attrs s) as, attr := k, end_delim := e, lit := l\<rparr>"
  using assms
proof (induction as arbitrary: s)
  case Nil
  have "steps defs (sum_list (map attr_steps [])) s =
          s\<lparr>pos := pos s + length (concat (map render_attribute [])),
            attrs := set_all (attrs s) [], attr := attr s, end_delim := end_delim s,
            lit := lit s\<rparr>" by (simp add: set_all_def)
  then show ?case by blast
next
  case (Cons a as)
  let ?s1 = "s\<lparr>pos := pos s + length (render_attribute a),
              attrs := map_set (a_name a) (a_value a) (attrs s),
              attr := a_name a, end_delim := Some [a_quote a],
              lit := Some (Q_ATTR (a_quote a))\<rparr>"
  have d: "drop (pos s) (src s) = render_attribute a @ (concat (map render_attribute as) @ rest)"
    using Cons.prems(5) by simp
  have ok: "attribute_ok a" "list_all attribute_ok as" using Cons.prems(4) by simp_all
  have s1: "steps defs (attr_steps a) s = ?s1"
    by (rule attribute_steps[OF Cons.prems(1,2,3) ok(1) d])
  have "drop (pos ?s1) (src ?s1) = concat (map render_attribute as) @ rest"
    using drop_drop_eq[OF d] by simp
  moreover have "running ?s1" "mode ?s1 = Attlist" "text_buf ?s1 = []"
    using Cons.prems(1,2,3) by (simp_all add: running_def)
  ultimately obtain k e l where
    "steps defs (sum_list (map attr_steps as)) ?s1 =
       ?s1\<lparr>pos := pos ?s1 + length (concat (map render_attribute as)),
            attrs := set_all (attrs ?s1) as, attr := k, end_delim := e, lit := l\<rparr>"
    using Cons.IH[OF _ _ _ ok(2), of ?s1] by blast
  then have "steps defs (sum_list (map attr_steps (a # as))) s =
           s\<lparr>pos := pos s + length (concat (map render_attribute (a # as))),
              attrs := set_all (attrs s) (a # as), attr := k, end_delim := e, lit := l\<rparr>"
    by (simp add: steps_add s1 set_all_def add.assoc)
  then show ?case by blast
qed

lemma end_step:
  assumes "mode s = Attlist"
    and "drop (pos s) (src s) = (if void then ustr ''/>'' else ustr ''>'') @ rest"
  shows "step defs s =
           s\<lparr>pos := pos s + (if void then 2 else 1),
              trace := trace s @ [Otag (tag s) (attrs s)] @ (if void then [Ctag (tag s)] else []),
              mode := Primary\<rparr>"
proof -
  let ?tok = "if void then ustr ''/>'' else ustr ''>''"
  have mm: "m ATTLIST (?tok @ rest) Some = Some rest"
    using ATTLIST_end[of rest] by (simp add: ustr_Cons ustr_Nil)
  have ne: "?tok \<noteq> []" by (simp add: ustr_Cons)
  show ?thesis
    unfolding attlist_exec[OF assms(1,2) ne mm]
    by (auto simp add: attlist_token_def ustr_Cons ustr_Nil)
qed

subsection \<open>The map after the attributes\<close>

lemma map_of_map_set: "map_of (map_set k v mp) = (map_of mp)(k \<mapsto> v)"
  by (induction mp) auto

lemma keys_map_set:
  "map fst (map_set k v mp) = (if k \<in> set (map fst mp) then map fst mp else map fst mp @ [k])"
  by (induction mp) auto

lemma set_all_snoc: "set_all mp (as @ [a]) = map_set (a_name a) (a_value a) (set_all mp as)"
  by (simp add: set_all_def)

lemma map_of_set_all:
  "map_of (set_all [] as) k = map_of (rev (map (\<lambda>a. (a_name a, a_value a)) as)) k"
proof (induction as rule: rev_induct)
  case Nil
  then show ?case by (simp add: set_all_def)
next
  case (snoc a as)
  then show ?case by (simp add: set_all_snoc map_of_map_set)
qed

lemma keys_set_all:
  "map fst (set_all [] as) = rev (remdups (rev (map a_name as)))"
proof (induction as rule: rev_induct)
  case Nil
  then show ?case by (simp add: set_all_def)
next
  case (snoc a as)
  have "set (map fst (set_all [] as)) = set (map a_name as)"
    unfolding snoc.IH by simp
  then show ?case
    unfolding set_all_snoc keys_map_set snoc.IH by simp
qed

text \<open>
  C10. At a tag \<open><name\<close> followed by a list of attributes \<open>name="value"\<close> or
  \<open>name='value'\<close> (each after white space, the values without references) and by \<open>>\<close> or
  \<open>/>\<close>, whatever names repeat: the read goes on, and \<open>otag\<close> is called with the map
  in which every name has the value of its last occurrence and the names stand in the
  order of their first occurrences.
\<close>

theorem duplicate_attributes:
  assumes "running s" and "mode s = Primary"
    and "drop (pos s) (src s) =
           u CHR ''<'' # name @ concat (map render_attribute as)
           @ (if void then ustr ''/>'' else ustr ''>'') @ rest"
    and "name \<noteq> []" and "list_all (\<lambda>x. x \<notin> set name_stop) name"
    and "hd name \<noteq> u CHR ''!''" and "hd name \<noteq> u CHR ''?''"
    and "list_all attribute_ok as"
  shows "running (steps defs (Suc (Suc (sum_list (map attr_steps as)))) s)
       \<and> trace (steps defs (Suc (Suc (sum_list (map attr_steps as)))) s) =
           trace s @ (if text_buf s \<noteq> [] then [Text (text_buf s)] else [])
           @ [Otag name (set_all [] as)] @ (if void then [Ctag name] else [])
       \<and> map_of (set_all [] as) k = map_of (rev (map (\<lambda>a. (a_name a, a_value a)) as)) k
       \<and> map fst (set_all [] as) = rev (remdups (rev (map a_name as)))"
proof -
  let ?n = "sum_list (map attr_steps as)"
  let ?closer = "if void then ustr ''/>'' else ustr ''>''"
  let ?r1 = "concat (map render_attribute as) @ ?closer @ rest"
  let ?s1 = "s\<lparr>pos := pos s + 1 + length name, text_buf := [],
       trace := trace s @ (if text_buf s \<noteq> [] then [Text (text_buf s)] else []),
       tag := name, attrs := [], mode := Attlist\<rparr>"
  have d0: "drop (pos s) (src s) = (u CHR ''<'' # name) @ ?r1" using assms(3) by simp
  have hd1: "?r1 = [] \<or> hd ?r1 \<in> set name_stop"
  proof (cases as)
    case Nil
    then show ?thesis by (simp add: ustr_Cons name_stop_def)
  next
    case (Cons a as')
    with assms(8) have "a_space a \<noteq> []" "hd (a_space a) \<in> set white"
      by (cases "a_space a"; simp add: attribute_ok_def)+
    then show ?thesis using white_not_stop Cons by (simp add: render_attribute_def)
  qed
  have s1: "step defs s = ?s1"
    using otag_step[OF assms(2) _ assms(4,5,6,7) hd1, of defs] assms(3) by simp
  have d1: "drop (pos ?s1) (src ?s1) = ?r1" using drop_drop_eq[OF d0] by simp
  have r1: "running ?s1" "mode ?s1 = Attlist" "text_buf ?s1 = []"
    using assms(1) by (simp_all add: running_def)
  from attributes_steps[OF r1 assms(8) d1, of defs] obtain k e l where
    s2: "steps defs ?n ?s1 =
           ?s1\<lparr>pos := pos ?s1 + length (concat (map render_attribute as)),
               attrs := set_all (attrs ?s1) as, attr := k, end_delim := e, lit := l\<rparr>"
      (is "_ = ?s2")
    by blast
  have d2: "drop (pos ?s2) (src ?s2) = ?closer @ rest"
  proof -
    have "drop (pos ?s1) (src ?s1) = concat (map render_attribute as) @ (?closer @ rest)"
      using d1 by simp
    from drop_drop_eq[OF this] show ?thesis by simp
  qed
  have s3: "step defs ?s2 =
           ?s2\<lparr>pos := pos ?s2 + (if void then 2 else 1),
              trace := trace ?s2 @ [Otag (tag ?s2) (attrs ?s2)]
                       @ (if void then [Ctag (tag ?s2)] else []),
              mode := Primary\<rparr>" (is "_ = ?s3")
    by (rule end_step[OF _ d2]) simp
  have r2: "running ?s2" using assms(1) by (simp add: running_def)
  have "steps defs (Suc 0) ?s2 = ?s3" by (rule steps_step[OF r2 s3]) simp
  then have "steps defs (?n + Suc 0) ?s1 = ?s3" unfolding steps_add s2 .
  then have "steps defs (Suc (?n + Suc 0)) s = ?s3" by (rule steps_step[OF assms(1) s1])
  then have fin: "steps defs (Suc (Suc ?n)) s = ?s3" by simp
  have R: "running (steps defs (Suc (Suc ?n)) s)"
    unfolding fin using assms(1) by (simp add: running_def)
  have T: "trace (steps defs (Suc (Suc ?n)) s) =
           trace s @ (if text_buf s \<noteq> [] then [Text (text_buf s)] else [])
           @ [Otag name (set_all [] as)] @ (if void then [Ctag name] else [])"
    unfolding fin by simp
  show ?thesis by (intro conjI R T map_of_set_all keys_set_all)
qed

definition dup_doc :: ustring where
  \<open>dup_doc = ustr ''<a x="1" y="2" x="3"/>''\<close>

definition dup_attrs :: "attribute list" where
  "dup_attrs = [Attribute (ustr '' '') (ustr ''x'') 34 (ustr ''1''),
                Attribute (ustr '' '') (ustr ''y'') 34 (ustr ''2''),
                Attribute (ustr '' '') (ustr ''x'') 34 (ustr ''3'')]"

theorem duplicate_attributes_witness:
  "running (init dup_doc) \<and> mode (init dup_doc) = Primary
   \<and> drop (pos (init dup_doc)) (src (init dup_doc))
       = u CHR ''<'' # ustr ''a'' @ concat (map render_attribute dup_attrs) @ ustr ''/>'' @ []
   \<and> list_all attribute_ok dup_attrs
   \<and> running (steps [] 14 (init dup_doc))
   \<and> trace (steps [] 14 (init dup_doc))
       = [Head [], Otag (ustr ''a'') [(ustr ''x'', ustr ''3''), (ustr ''y'', ustr ''2'')],
          Ctag (ustr ''a'')]"
proof -
  have h1: "running (init dup_doc)" and h2: "mode (init dup_doc) = Primary"
    and h8: "list_all attribute_ok dup_attrs" by code_simp+
  have h3: "drop (pos (init dup_doc)) (src (init dup_doc))
       = u CHR ''<'' # ustr ''a'' @ concat (map render_attribute dup_attrs)
         @ (if True then ustr ''/>'' else ustr ''>'') @ []" by code_simp
  have h4: "ustr ''a'' \<noteq> []" "list_all (\<lambda>x. x \<notin> set name_stop) (ustr ''a'')"
    "hd (ustr ''a'') \<noteq> u CHR ''!''" "hd (ustr ''a'') \<noteq> u CHR ''?''"
    by (simp_all add: ustr_def u_def name_stop_def)
  have v: "Suc (Suc (sum_list (map attr_steps dup_attrs))) = 14"
    "set_all [] dup_attrs = [(ustr ''x'', ustr ''3''), (ustr ''y'', ustr ''2'')]"
    "trace (init dup_doc) = [Head []]" "text_buf (init dup_doc) = []" by code_simp+
  from duplicate_attributes[OF h1 h2 h3 h4 h8, of "[]"]
  have "running (steps [] 14 (init dup_doc))
   \<and> trace (steps [] 14 (init dup_doc))
       = [Head [], Otag (ustr ''a'') [(ustr ''x'', ustr ''3''), (ustr ''y'', ustr ''2'')],
          Ctag (ustr ''a'')]"
    unfolding v by simp
  with h1 h2 h3 h8 show ?thesis by simp
qed

section \<open>Comments in the prolog\<close>

text \<open>
  \<open>PROLOG\<close> tries the declaration \<open><!...>\<close> before the comment \<open><!-...-->\<close>. A comment
  with a \<open>>\<close> inside is therefore read as a declaration that ends at that \<open>>\<close>, and when a
  \<open><\<close> follows in the comment the prolog ends there: the rest of the comment goes to the
  top-level loop as markup.
\<close>

definition comment_doc :: ustring where
  "comment_doc = ustr ''<!-- > <x> --><r/>''"

text \<open>
  C6 at \<open><!-- > <x> --><r/>\<close>. The comment alternative of \<open>PROLOG\<close> alone matches the
  whole comment, so the longest prefix of ignorable content is \<open><!-- > <x> -->\<close>; \<open>head\<close>
  is called with \<open><!-- > \<close> only, and \<open>otag x\<close> follows for the \<open><x>\<close> of the comment.
\<close>

theorem prolog_stops_in_comment:
  "m (seqs [lit_str ''<!-'', Lazy Dot, lit_str ''-->'']) comment_doc Some = Some (ustr ''<r/>'')
   \<and> hooks [] comment_doc
       = Some [Head (ustr ''<!-- > ''), Otag (ustr ''x'') [], Text (ustr '' -->''),
               Otag (ustr ''r'') [], Ctag (ustr ''r'')]"
  by code_simp

text \<open>
  The open and close calls of a trace are well nested, with the tags \<open>st\<close> open at its
  start: every \<open>ctag\<close> has the name of the tag opened last and not yet closed, and no tag
  stays open.
\<close>

fun nested :: "ustring list \<Rightarrow> hook list \<Rightarrow> bool" where
  "nested st [] = (st = [])"
| "nested st (Otag n a # hs) = nested (n # st) hs"
| "nested st (Ctag n # hs) = (case st of [] \<Rightarrow> False | t # st' \<Rightarrow> t = n \<and> nested st' hs)"
| "nested st (h # hs) = nested st hs"

definition closing_comment_doc :: ustring where
  "closing_comment_doc = ustr ''<!-- > </x> --><r/>''"

text \<open>
  C4 at \<open><!-- > </x> --><r/>\<close>, a comment and an empty element, without references: the
  reader calls \<open>ctag x\<close> for the \<open></x>\<close> of the comment, with no tag open.
\<close>

theorem comment_read_as_markup:
  "hooks [] closing_comment_doc
     = Some [Head (ustr ''<!-- > ''), Ctag (ustr ''x''), Text (ustr '' -->''),
             Otag (ustr ''r'') [], Ctag (ustr ''r'')]
   \<and> \<not> nested [] [Head (ustr ''<!-- > ''), Ctag (ustr ''x''), Text (ustr '' -->''),
                     Otag (ustr ''r'') [], Ctag (ustr ''r'')]
   \<and> nested [] [Otag (ustr ''r'') [], Ctag (ustr ''r'')]"
  by code_simp

text \<open>
  The same comment behind the first tag is skipped as a whole: the top-level grammar has the
  comment before the tag head.
\<close>

lemma comment_skipped_at_top_level:
  "hooks [] (ustr ''<r><!-- > </x> --></r>'')
     = Some [Head [], Otag (ustr ''r'') [], Ctag (ustr ''r'')]"
  by code_simp

text \<open>\<open>head\<close> is the first call of every read, and it is called once.\<close>

fun is_head :: "hook \<Rightarrow> bool" where
  "is_head (Head h) = True"
| "is_head h = False"

definition appends :: "state \<Rightarrow> state \<Rightarrow> bool" where
  "appends s s' \<longleftrightarrow> (\<exists>new. trace s' = trace s @ new \<and> list_all (\<lambda>h. \<not> is_head h) new)"

lemma appends_same: "trace s' = trace s \<Longrightarrow> appends s s'"
  by (simp add: appends_def)

lemma primary_token_appends: "appends s (primary_token defs tok (s\<lparr>pos := e\<rparr>))"
proof -
  let ?s = "s\<lparr>pos := e\<rparr>"
  have 1: "appends s (case indexOf (src (flush ?s)) (u CHR ''>'') (pos (flush ?s)) of
                 None \<Rightarrow> (flush ?s)\<lparr>active := False\<rparr>
               | Some e \<Rightarrow> (flush ?s)\<lparr>trace := trace (flush ?s) @ [Ctag (drop 2 tok)], pos := e + 1\<rparr>)"
    by (auto simp: appends_def flush_def split: option.splits)
  have 2: "appends s ((flush ?s)\<lparr>tag := drop 1 tok, attrs := [], mode := Attlist\<rparr>)"
    by (auto simp: appends_def flush_def)
  have 3: "appends s (expand defs r ?s)" "appends s ?s" "appends s (?s\<lparr>text_buf := x\<rparr>)" for r x
    by (simp_all add: appends_same)
  show ?thesis
    unfolding primary_token_def Let_def using 1 2 3 by presburger
qed

lemma step_appends: "appends s (step defs s)"
proof (cases "mode s")
  case Primary
  then show ?thesis
    using primary_token_appends[of s defs]
    by (auto simp: step_def primary_step_def appends_same split: option.splits)
next
  case Attlist
  have "appends s (attlist_token tok (s\<lparr>pos := e\<rparr>))" for tok e
    by (auto simp: attlist_token_def appends_def)
  then show ?thesis
    using Attlist by (auto simp: step_def attlist_step_def appends_same split: option.splits)
next
  case Literal
  have "trace (literal_step defs s) = trace s"
    by (auto simp: literal_step_def literal_token_def split: option.splits)
  then show ?thesis using Literal by (simp add: step_def appends_same)
qed

lemma steps_appends: "appends s (steps defs n s)"
proof (induction n arbitrary: s)
  case 0
  then show ?case by (simp add: appends_same)
next
  case (Suc n)
  show ?case
  proof (cases "running s")
    case True
    from step_appends[of s defs] Suc[of "step defs s"] show ?thesis
      using True by (auto simp: appends_def)
  next
    case False
    then show ?thesis by (simp add: appends_same)
  qed
qed

text \<open>
  In every state of a read, the trace is the call of \<open>head\<close> with the prefix \<open>PROLOG\<close>
  matched (empty when it matched nothing), followed by calls of the other hooks.
\<close>

lemma head_first:
  "\<exists>r. trace (steps defs n (init doc))
         = Head (slice doc 0 (case exec PROLOG doc 0 of Some e \<Rightarrow> e | None \<Rightarrow> 0)) # r
       \<and> list_all (\<lambda>h. \<not> is_head h) r"
  using steps_appends[of "init doc" defs n]
  by (simp add: appends_def init_def Let_def)

section \<open>Three tests of the repository\<close>

text \<open>The reader is run on three documents of the test file of the repository (a document type
  declaration with an internal subset, attributes over several lines, the predefined
  entities); the hooks are those the tests expect.\<close>

lemma test_doctype_decl:
  \<open>hooks ([])
     ([10] @ ustr ''            <!DOCTYPE test PUBLIC "foo>" '' @ [39] @ ustr ''bar>'' @ [39] @ ustr '' ['' @ [10] @ ustr ''                <!ENTITY a "<b/>" >'' @ [10] @ ustr ''            ]>'' @ [10] @ ustr ''            <a></a>'' @ [10] @ ustr ''    '')
   = Some [Head ([10] @ ustr ''            <!DOCTYPE test PUBLIC "foo>" '' @ [39] @ ustr ''bar>'' @ [39] @ ustr '' ['' @ [10] @ ustr ''                <!ENTITY a "<b/>" >'' @ [10] @ ustr ''            ]>'' @ [10] @ ustr ''            ''),
           Otag (ustr ''a'') [],
           Ctag (ustr ''a'')]\<close>
  by code_simp

lemma test_with_attributes:
  \<open>hooks ([])
     ([10] @ ustr ''            <a a='' @ [39] @ ustr ''b'' @ [39] @ ustr ''><b a='' @ [39] @ ustr ''b'' @ [39, 10] @ ustr ''            c="d"/><c'' @ [10] @ ustr ''            a='' @ [39] @ ustr ''b'' @ [39, 10] @ ustr ''            ><d'' @ [10] @ ustr ''            a='' @ [39] @ ustr ''b'' @ [39, 10] @ ustr ''            c="d"'' @ [10] @ ustr ''            /></c></a>'' @ [10] @ ustr ''        '')
   = Some [Head ([10] @ ustr ''            ''),
           Otag (ustr ''a'') [(ustr ''a'', ustr ''b'')],
           Otag (ustr ''b'') [(ustr ''a'', ustr ''b''), (ustr ''c'', ustr ''d'')],
           Ctag (ustr ''b''),
           Otag (ustr ''c'') [(ustr ''a'', ustr ''b'')],
           Otag (ustr ''d'') [(ustr ''a'', ustr ''b''), (ustr ''c'', ustr ''d'')],
           Ctag (ustr ''d''),
           Ctag (ustr ''c''),
           Ctag (ustr ''a'')]\<close>
  by code_simp

lemma test_predefined:
  \<open>hooks ([])
     ([10] @ ustr ''            <a a='' @ [39] @ ustr ''b&amp;&lt;&gt;&quot;&apos;c'' @ [39] @ ustr ''>d&amp;&lt;&gt;&quot;&apos;e</a>'' @ [10] @ ustr ''        '')
   = Some [Head ([10] @ ustr ''            ''),
           Otag (ustr ''a'') [(ustr ''a'', ustr ''b&<>"'' @ [39] @ ustr ''c'')],
           Text (ustr ''d&<>"'' @ [39] @ ustr ''e''),
           Ctag (ustr ''a'')]\<close>
  by code_simp

end
